theory Spec2Isabelle
  imports Main "HOL-Library.AList"
begin

section \<open>Data model of the Delta Bundler traversal\<close>

text \<open>
  The JavaScript \<open>Map\<close> keeps its keys in insertion order: \<open>set\<close> on a key that is
  present replaces the value in place, on a new key it appends.  An association list with
  \<^const>\<open>AList.update\<close> (\<open>set\<close>), \<^const>\<open>map_of\<close> (\<open>get\<close>, \<open>has\<close>) and
  \<^const>\<open>AList.delete\<close> (\<open>delete\<close>) behaves the same way.  A JavaScript \<open>Set\<close> is a list
  without repetitions, in insertion order.
\<close>

definition set_add :: "'a \<Rightarrow> 'a list \<Rightarrow> 'a list" where
  "set_add x xs = (if x \<in> set xs then xs else xs @ [x])"

definition set_delete :: "'a \<Rightarrow> 'a list \<Rightarrow> 'a list" where
  "set_delete x xs = removeAll x xs"

definition map_has :: "('k \<times> 'v) list \<Rightarrow> 'k \<Rightarrow> bool" where
  "map_has m k = (map_of m k \<noteq> None)"

datatype DependencyType = module | script | asset

record Output =
  code :: string
  sourcemap :: "int list list"
  source :: string
  otype :: DependencyType

text \<open>Modules are mutable objects shared between the graph and the delta: they live in
  a heap and are named by their address.\<close>

type_synonym ref = nat

record Module =
  dependencies :: "(string \<times> string) list"
  inverseDependencies :: "string list"
  path :: string
  module_output :: Output

record Graph =
  graph_dependencies :: "(string \<times> ref) list"
  entryPoints :: "string list"

record Result =
  result_added :: "(string \<times> ref) list"
  result_deleted :: "string list"

record Delta =
  added :: "(string \<times> ref) list"
  modified :: "(string \<times> ref) list"
  deleted :: "string list"

section \<open>Reconciling the delta (the tail of \<open>traverseDependencies\<close>)\<close>

text \<open>The loops \<open>for (const [path, module] of m) target.set(path, module)\<close>.\<close>

definition set_all :: "('k \<times> 'v) list \<Rightarrow> ('k \<times> 'v) list \<Rightarrow> ('k \<times> 'v) list" where
  "set_all src target = fold (\<lambda>(p, m) acc. AList.update p m acc) src target"

text \<open>The loop over \<open>delta.deleted\<close>, lines 113 to 125.\<close>

fun reconcile_deleted ::
  "string list \<Rightarrow> (string \<times> ref) list \<Rightarrow> (string \<times> ref) list \<Rightarrow> string list
    \<Rightarrow> (string \<times> ref) list \<times> string list" where
  "reconcile_deleted [] addedm modifiedm deleteds = (addedm, deleteds)"
| "reconcile_deleted (p # ps) addedm modifiedm deleteds =
     (let markedAsAdded = map_has addedm p;
          addedm' = AList.delete p addedm;
          deleteds' = (if \<not> markedAsAdded \<or> map_has modifiedm p
                       then set_add p deleteds else deleteds)
      in reconcile_deleted ps addedm' modifiedm deleteds')"

definition reconcile :: "Delta \<Rightarrow> Result" where
  "reconcile delta =
     (let added0 = set_all (added delta) [];
          added1 = set_all (modified delta) added0;
          modified0 = set_all (modified delta) [];
          (added2, deleted2) = reconcile_deleted (deleted delta) added1 modified0 []
      in \<lparr>result_added = added2, result_deleted = deleted2\<rparr>)"

section \<open>Collaborators and the state of a traversal pass\<close>

record TransformResult =
  tr_dependencies :: "string list"
  tr_output :: Output

text \<open>
  \<open>resolve\<close> and \<open>transform\<close> are the caller's functions; \<open>None\<close> is a call that throws or
  a promise that rejects.  \<open>onProgress\<close> tells whether the optional callback was given.
\<close>

record Options =
  resolve :: "string \<Rightarrow> string \<Rightarrow> string option"
  transform :: "string \<Rightarrow> TransformResult option"
  onProgress :: bool

datatype failure = TransformRejected | ResolveThrew | DepthExceeded | NotEnabled | Unfinished

text \<open>
  Every call of \<open>processModule\<close> suspends once, at \<open>await options.transform(module.path)\<close>,
  and then waits for the \<open>addDependency\<close> calls it has started.  A task stands for one such
  call: the module it works on, the \<open>previousDependencies\<close> it read before suspending, the
  single-file traversal whose counters its callbacks change, and the task that awaits it
  (\<open>None\<close> for the call made by \<open>traverseDependenciesForSingleFile\<close>).
\<close>

datatype Status = AwaitTransform | AwaitChildren | Done

record Task =
  task_module :: ref
  task_previous :: "(string \<times> string) list"
  task_root :: nat
  task_parent :: "nat option"
  task_status :: Status

text \<open>
  \<open>counters k\<close> holds \<open>(numProcessed, total)\<close> of the single-file traversal whose task is
  \<open>k\<close>; \<open>progress\<close> lists the calls of \<open>onProgress\<close> in order, each with the traversal that
  made it and the two arguments it passed.
\<close>

record Config =
  heap :: "ref \<Rightarrow> Module"
  nextRef :: ref
  graph :: Graph
  delta :: Delta
  tasks :: "Task list"
  counters :: "nat \<Rightarrow> nat \<times> nat"
  progress :: "(nat \<times> nat \<times> nat) list"

section \<open>\<open>createModule\<close> and \<open>removeDependency\<close>\<close>

definition createModule :: "string \<Rightarrow> Config \<Rightarrow> ref \<times> Config" where
  "createModule filePath c =
     (let r = nextRef c;
          m = \<lparr>dependencies = [], inverseDependencies = [], path = filePath,
               module_output = \<lparr>code = [], sourcemap = [], source = [], otype = module\<rparr>\<rparr>
      in (r, c\<lparr>heap := (heap c)(r := m), nextRef := Suc r,
               graph := (graph c)\<lparr>graph_dependencies :=
                  AList.update filePath r (graph_dependencies (graph c))\<rparr>\<rparr>))"

text \<open>\<open>module.inverseDependencies.delete(p)\<close> and \<open>module.inverseDependencies.add(p)\<close>.\<close>

definition inverse_delete :: "ref \<Rightarrow> string \<Rightarrow> Config \<Rightarrow> Config" where
  "inverse_delete r p c =
     c\<lparr>heap := (heap c)(r := (heap c r)\<lparr>inverseDependencies :=
          set_delete p (inverseDependencies (heap c r))\<rparr>)\<rparr>"

definition inverse_add :: "ref \<Rightarrow> string \<Rightarrow> Config \<Rightarrow> Config" where
  "inverse_add r p c =
     c\<lparr>heap := (heap c)(r := (heap c r)\<lparr>inverseDependencies :=
          set_add p (inverseDependencies (heap c r))\<rparr>)\<rparr>"

text \<open>\<open>delta.deleted.add(p)\<close> and \<open>graph.dependencies.delete(p)\<close>.\<close>

definition deleted_add :: "string \<Rightarrow> Config \<Rightarrow> Config" where
  "deleted_add p c = c\<lparr>delta := (delta c)\<lparr>deleted := set_add p (deleted (delta c))\<rparr>\<rparr>"

definition graph_delete :: "string \<Rightarrow> Config \<Rightarrow> Config" where
  "graph_delete p c =
     c\<lparr>graph := (graph c)\<lparr>graph_dependencies := AList.delete p (graph_dependencies (graph c))\<rparr>\<rparr>"

text \<open>
  \<open>removeDependency\<close> calls itself from its loop over \<open>module.dependencies.values()\<close>.  The
  first argument bounds the depth of these calls; \<open>None\<close> is a call that needs more.
\<close>

fun removeDependency :: "nat \<Rightarrow> ref \<Rightarrow> string \<Rightarrow> Config \<Rightarrow> Config option"
  and removeDependency_each :: "nat \<Rightarrow> ref \<Rightarrow> string list \<Rightarrow> Config \<Rightarrow> Config option"
where
  "removeDependency 0 parentModule absolutePath c = None"
| "removeDependency (Suc n) parentModule absolutePath c =
     (case map_of (graph_dependencies (graph c)) absolutePath of
        None \<Rightarrow> Some c
      | Some r \<Rightarrow>
          let c1 = inverse_delete r (path (heap c parentModule)) c in
          if inverseDependencies (heap c1 r) \<noteq> [] then Some c1
          else
            (case removeDependency_each n r (map snd (dependencies (heap c1 r)))
                    (deleted_add (path (heap c1 r)) c1) of
               None \<Rightarrow> None
             | Some c3 \<Rightarrow> Some (graph_delete (path (heap c3 r)) c3)))"
| "removeDependency_each n parentModule [] c = Some c"
| "removeDependency_each n parentModule (d # ds) c =
     (case removeDependency n parentModule d c of
        None \<Rightarrow> None
      | Some c' \<Rightarrow> removeDependency_each n parentModule ds c')"

section \<open>Progress callbacks\<close>

definition report :: "Options \<Rightarrow> nat \<Rightarrow> Config \<Rightarrow> Config" where
  "report options k c =
     (if onProgress options then c\<lparr>progress := progress c @ [(k, counters c k)]\<rparr> else c)"

text \<open>The closures \<open>() => { total++; ... }\<close> and \<open>() => { numProcessed++; ... }\<close> of
  the single-file traversal \<open>k\<close>.\<close>

definition onDependencyAdd :: "Options \<Rightarrow> nat \<Rightarrow> Config \<Rightarrow> Config" where
  "onDependencyAdd options k c =
     report options k
       (c\<lparr>counters := (counters c)(k := (fst (counters c k), Suc (snd (counters c k))))\<rparr>)"

definition onDependencyAdded :: "Options \<Rightarrow> nat \<Rightarrow> Config \<Rightarrow> Config" where
  "onDependencyAdded options k c =
     report options k
       (c\<lparr>counters := (counters c)(k := (Suc (fst (counters c k)), snd (counters c k)))\<rparr>)"

section \<open>\<open>processModule\<close> and \<open>addDependency\<close>\<close>

text \<open>\<open>processModule\<close> up to its first \<open>await\<close>: it reads \<open>module.dependencies\<close>, calls
  \<open>transform\<close> and suspends.\<close>

definition processModule_start :: "ref \<Rightarrow> nat \<Rightarrow> nat option \<Rightarrow> Config \<Rightarrow> Config" where
  "processModule_start r k parent c =
     c\<lparr>tasks := tasks c @
         [\<lparr>task_module = r, task_previous = dependencies (heap c r), task_root = k,
           task_parent = parent, task_status = AwaitTransform\<rparr>]\<rparr>"

text \<open>\<open>addDependency\<close> up to its \<open>await processModule(...)\<close>; \<open>t\<close> is the task that calls it.\<close>

definition addDependency :: "Options \<Rightarrow> nat \<Rightarrow> ref \<Rightarrow> string \<Rightarrow> Config \<Rightarrow> Config" where
  "addDependency options t parentModule p c =
     (case map_of (graph_dependencies (graph c)) p of
        Some existingModule \<Rightarrow> inverse_add existingModule (path (heap c parentModule)) c
      | None \<Rightarrow>
          (case createModule p c of
             (r, c1) \<Rightarrow>
               let c2 = inverse_add r (path (heap c1 parentModule)) c1;
                   c3 = c2\<lparr>delta := (delta c2)\<lparr>added :=
                          AList.update (path (heap c2 r)) r (added (delta c2))\<rparr>\<rparr>;
                   c4 = onDependencyAdd options (task_root (tasks c3 ! t)) c3
               in processModule_start r (task_root (tasks c4 ! t)) (Some t) c4))"

fun resolve_each :: "Options \<Rightarrow> string \<Rightarrow> string list \<Rightarrow> (string \<times> string) list option" where
  "resolve_each options parentPath [] = Some []"
| "resolve_each options parentPath (relativePath # ds) =
     (case resolve options parentPath relativePath of
        None \<Rightarrow> None
      | Some absolutePath \<Rightarrow>
          (case resolve_each options parentPath ds of
             None \<Rightarrow> None
           | Some ps \<Rightarrow> Some ((relativePath, absolutePath) # ps)))"

definition resolveDependencies ::
  "string \<Rightarrow> string list \<Rightarrow> Options \<Rightarrow> (string \<times> string) list option" where
  "resolveDependencies parentPath deps options =
     (case resolve_each options parentPath deps of
        None \<Rightarrow> None
      | Some ps \<Rightarrow> Some (set_all ps []))"

text \<open>The loop over \<open>previousDependencies\<close>, lines 206 to 210.\<close>

fun remove_previous ::
  "nat \<Rightarrow> ref \<Rightarrow> (string \<times> string) list \<Rightarrow> (string \<times> string) list \<Rightarrow> Config \<Rightarrow> Config option"
where
  "remove_previous n r currentDependencies [] c = Some c"
| "remove_previous n r currentDependencies ((relativePath, absolutePath) # ps) c =
     (if \<not> map_has currentDependencies relativePath
      then (case removeDependency n r absolutePath c of
              None \<Rightarrow> None
            | Some c' \<Rightarrow> remove_previous n r currentDependencies ps c')
      else remove_previous n r currentDependencies ps c)"

text \<open>The calls made by \<open>Array.from(currentDependencies.entries()).map(...)\<close>, lines 215
  to 233, each up to its first \<open>await\<close>.\<close>

fun add_current ::
  "Options \<Rightarrow> nat \<Rightarrow> ref \<Rightarrow> (string \<times> string) list \<Rightarrow> (string \<times> string) list \<Rightarrow> Config \<Rightarrow> Config"
where
  "add_current options t r previousDependencies [] c = c"
| "add_current options t r previousDependencies ((relativePath, absolutePath) # es) c =
     (if map_has previousDependencies relativePath
      then add_current options t r previousDependencies es c
      else add_current options t r previousDependencies es
             (addDependency options t r absolutePath c))"

text \<open>\<open>processModule\<close> from the moment the transform of task \<open>t\<close> has resolved until it
  waits for the dependencies it added.\<close>

definition processModule_resume :: "nat \<Rightarrow> Options \<Rightarrow> nat \<Rightarrow> Config \<Rightarrow> failure + Config" where
  "processModule_resume n options t c =
     (let r = task_module (tasks c ! t);
          previousDependencies = task_previous (tasks c ! t)
      in case transform options (path (heap c r)) of
           None \<Rightarrow> Inl TransformRejected
         | Some result \<Rightarrow>
             (case resolveDependencies (path (heap c r)) (tr_dependencies result) options of
                None \<Rightarrow> Inl ResolveThrew
              | Some currentDependencies \<Rightarrow>
                  let c1 = c\<lparr>heap := (heap c)(r := (heap c r)
                              \<lparr>dependencies := set_all currentDependencies [],
                               module_output := tr_output result\<rparr>)\<rparr>
                  in case remove_previous n r currentDependencies previousDependencies c1 of
                       None \<Rightarrow> Inl DepthExceeded
                     | Some c2 \<Rightarrow>
                         let c3 = add_current options t r previousDependencies
                                    currentDependencies c2
                         in Inr (c3\<lparr>tasks := (tasks c3)
                                  [t := (tasks c3 ! t)\<lparr>task_status := AwaitChildren\<rparr>]\<rparr>)))"

section \<open>Interleaving of the suspended calls\<close>

text \<open>
  Between two suspension points the code runs without interruption.  Two things can happen
  next: the transform of a suspended task resolves and its \<open>processModule\<close> runs on
  (\<open>TransformDone\<close>), or a \<open>processModule\<close> whose added dependencies have all finished
  returns to the call that awaits it (\<open>Finish\<close>), which then increments \<open>numProcessed\<close> and
  reports.  A schedule is the list of these events in the order in which they happen.
\<close>

datatype Event = TransformDone nat | Finish nat

definition children_done :: "nat \<Rightarrow> Config \<Rightarrow> bool" where
  "children_done t c = list_all (\<lambda>u. task_parent u = Some t \<longrightarrow> task_status u = Done) (tasks c)"

definition finish :: "Options \<Rightarrow> nat \<Rightarrow> Config \<Rightarrow> Config" where
  "finish options t c =
     (let c1 = c\<lparr>tasks := (tasks c)[t := (tasks c ! t)\<lparr>task_status := Done\<rparr>]\<rparr>
      in onDependencyAdded options (task_root (tasks c ! t)) c1)"

fun step :: "nat \<Rightarrow> Options \<Rightarrow> Event \<Rightarrow> Config \<Rightarrow> failure + Config" where
  "step n options (TransformDone t) c =
     (if t < length (tasks c) \<and> task_status (tasks c ! t) = AwaitTransform
      then processModule_resume n options t c else Inl NotEnabled)"
| "step n options (Finish t) c =
     (if t < length (tasks c) \<and> task_status (tasks c ! t) = AwaitChildren \<and> children_done t c
      then Inr (finish options t c) else Inl NotEnabled)"

fun run :: "nat \<Rightarrow> Options \<Rightarrow> Event list \<Rightarrow> Config \<Rightarrow> failure + Config" where
  "run n options [] c = Inr c"
| "run n options (e # es) c =
     (case step n options e c of Inl f \<Rightarrow> Inl f | Inr c' \<Rightarrow> run n options es c')"

section \<open>\<open>traverseDependencies\<close> and \<open>initialTraverseDependencies\<close>\<close>

text \<open>\<open>traverseDependenciesForSingleFile\<close> up to the suspension of its \<open>processModule\<close>.\<close>

definition traverseDependenciesForSingleFile :: "Options \<Rightarrow> ref \<Rightarrow> Config \<Rightarrow> Config" where
  "traverseDependenciesForSingleFile options r c =
     (let k = length (tasks c);
          c1 = report options k (c\<lparr>counters := (counters c)(k := (0, 1))\<rparr>)
      in processModule_start r k None c1)"

text \<open>The callbacks of \<open>paths.map(async path => ...)\<close>, each up to its first \<open>await\<close>.\<close>

fun start_paths :: "Options \<Rightarrow> string list \<Rightarrow> Config \<Rightarrow> Config" where
  "start_paths options [] c = c"
| "start_paths options (p # ps) c =
     (case map_of (graph_dependencies (graph c)) p of
        None \<Rightarrow> start_paths options ps c
      | Some r \<Rightarrow>
          start_paths options ps
            (traverseDependenciesForSingleFile options r
               (c\<lparr>delta := (delta c)\<lparr>modified :=
                     AList.update (path (heap c r)) r (modified (delta c))\<rparr>\<rparr>)))"

definition new_pass :: "Config \<Rightarrow> Config" where
  "new_pass c =
     c\<lparr>delta := \<lparr>added = [], modified = [], deleted = []\<rparr>, tasks := [],
       counters := (\<lambda>k. (0, 0)), progress := []\<rparr>"

definition roots_done :: "Config \<Rightarrow> bool" where
  "roots_done c = list_all (\<lambda>u. task_parent u = None \<longrightarrow> task_status u = Done) (tasks c)"

text \<open>
  A call of \<open>traverseDependencies\<close> under a schedule.  The pass returns when the promises
  of all paths have resolved; a schedule that stops before that is \<open>Unfinished\<close>.
\<close>

definition traverseDependencies ::
  "nat \<Rightarrow> Options \<Rightarrow> Event list \<Rightarrow> string list \<Rightarrow> Config \<Rightarrow> failure + (Config \<times> Result)" where
  "traverseDependencies n options schedule paths c =
     (case run n options schedule (start_paths options paths (new_pass c)) of
        Inl f \<Rightarrow> Inl f
      | Inr c' \<Rightarrow> if roots_done c' then Inr (c', reconcile (delta c')) else Inl Unfinished)"

section \<open>\<open>reorderGraph\<close>\<close>

text \<open>The first argument of \<open>reorderDependencies\<close> is the synthetic parent, which has no
  \<open>path\<close>, or a module.\<close>

datatype Node = Parent "(string \<times> string) list" | Mod ref

fun reorderDependencies ::
  "nat \<Rightarrow> (ref \<Rightarrow> Module) \<Rightarrow> Node \<Rightarrow> (string \<times> ref) list \<Rightarrow> (string \<times> ref) list
    \<Rightarrow> (string \<times> ref) list option"
  and reorderDependencies_each ::
  "nat \<Rightarrow> (ref \<Rightarrow> Module) \<Rightarrow> string list \<Rightarrow> (string \<times> ref) list \<Rightarrow> (string \<times> ref) list
    \<Rightarrow> (string \<times> ref) list option"
where
  "reorderDependencies 0 h node ds orderedDependencies = None"
| "reorderDependencies (Suc n) h (Parent deps) ds orderedDependencies =
     reorderDependencies_each n h (map snd deps) ds orderedDependencies"
| "reorderDependencies (Suc n) h (Mod r) ds orderedDependencies =
     (if path (h r) \<noteq> []
      then (if map_has orderedDependencies (path (h r)) then Some orderedDependencies
            else reorderDependencies_each n h (map snd (dependencies (h r))) ds
                   (AList.update (path (h r)) r orderedDependencies))
      else reorderDependencies_each n h (map snd (dependencies (h r))) ds orderedDependencies)"
| "reorderDependencies_each n h [] ds orderedDependencies = Some orderedDependencies"
| "reorderDependencies_each n h (p # ps) ds orderedDependencies =
     (case map_of ds p of
        None \<Rightarrow> reorderDependencies_each n h ps ds orderedDependencies
      | Some dep \<Rightarrow>
          (case reorderDependencies n h (Mod dep) ds orderedDependencies of
             None \<Rightarrow> None
           | Some ordered' \<Rightarrow> reorderDependencies_each n h ps ds ordered'))"

definition reorderGraph :: "nat \<Rightarrow> Config \<Rightarrow> Config option" where
  "reorderGraph n c =
     (case reorderDependencies n (heap c)
             (Parent (set_all (map (\<lambda>e. (e, e)) (entryPoints (graph c))) []))
             (graph_dependencies (graph c)) [] of
        None \<Rightarrow> None
      | Some ds \<Rightarrow> Some (c\<lparr>graph := (graph c)\<lparr>graph_dependencies := ds\<rparr>\<rparr>))"

definition create_entries :: "string list \<Rightarrow> Config \<Rightarrow> Config" where
  "create_entries es c = fold (\<lambda>entryPoint c'. snd (createModule entryPoint c')) es c"

definition initialTraverseDependencies ::
  "nat \<Rightarrow> Options \<Rightarrow> Event list \<Rightarrow> Config \<Rightarrow> failure + (Config \<times> Result)" where
  "initialTraverseDependencies n options schedule c =
     (let c1 = create_entries (entryPoints (graph c)) c
      in case traverseDependencies n options schedule (entryPoints (graph c1)) c1 of
           Inl f \<Rightarrow> Inl f
         | Inr (c2, res) \<Rightarrow>
             (case reorderGraph n c2 of
                None \<Rightarrow> Inl DepthExceeded
              | Some c3 \<Rightarrow>
                  Inr (c3, \<lparr>result_added = graph_dependencies (graph c3),
                            result_deleted = []\<rparr>)))"

section \<open>Concrete graphs and collaborators\<close>

definition no_output :: Output where
  "no_output = \<lparr>code = [], sourcemap = [], source = [], otype = module\<rparr>"

definition module_of :: "string \<Rightarrow> (string \<times> string) list \<Rightarrow> string list \<Rightarrow> Module" where
  "module_of p deps invs =
     \<lparr>dependencies = deps, inverseDependencies = invs, path = p, module_output = no_output\<rparr>"

definition config_of :: "(ref \<Rightarrow> Module) \<Rightarrow> ref \<Rightarrow> (string \<times> ref) list \<Rightarrow> string list \<Rightarrow> Config" where
  "config_of h next ds es =
     \<lparr>heap = h, nextRef = next, graph = \<lparr>graph_dependencies = ds, entryPoints = es\<rparr>,
      delta = \<lparr>added = [], modified = [], deleted = []\<rparr>, tasks = [],
      counters = (\<lambda>k. (0, 0)), progress = []\<rparr>"

text \<open>A graph with no module yet and the entry points \<open>es\<close>.\<close>

definition empty_config :: "string list \<Rightarrow> Config" where
  "empty_config es = config_of (\<lambda>r. module_of [] [] []) 0 [] es"

text \<open>Collaborators that never fail: \<open>deps p\<close> are the specifiers of the file \<open>p\<close>, and a
  specifier \<open>./X\<close> resolves to \<open>/X\<close>.\<close>

definition files :: "(string \<Rightarrow> string list) \<Rightarrow> Options" where
  "files deps =
     \<lparr>resolve = (\<lambda>parentPath relativePath. Some (CHR ''/'' # drop 2 relativePath)),
      transform = (\<lambda>p. Some \<lparr>tr_dependencies = deps p, tr_output = no_output\<rparr>),
      onProgress = True\<rparr>"

text \<open>The scenario of the specification: \<open>/A\<close> imports \<open>/B\<close> and \<open>/C\<close>, which both import
  \<open>/D\<close>.\<close>

definition diamond :: "string \<Rightarrow> string list" where
  "diamond p =
     (if p = ''/A'' then [''./B'', ''./C'']
      else if p = ''/B'' then [''./D'']
      else if p = ''/C'' then [''./D'']
      else [])"

text \<open>The graph of that scenario once it is built.\<close>

definition diamond_config :: Config where
  "diamond_config =
     config_of
       ((\<lambda>r. module_of [] [] [])
          (0 := module_of ''/A'' [(''./B'', ''/B''), (''./C'', ''/C'')] [],
           1 := module_of ''/B'' [(''./D'', ''/D'')] [''/A''],
           2 := module_of ''/C'' [(''./D'', ''/D'')] [''/A''],
           3 := module_of ''/D'' [] [''/B'', ''/C'']))
       4 [(''/A'', 0), (''/B'', 1), (''/D'', 3), (''/C'', 2)] [''/A'']"


definition moved_config :: Config where
  "moved_config =
     (config_of
        ((\<lambda>r. module_of [] [] [])
           (0 := module_of ''/A'' [(''./x'', ''/X1'')] [],
            1 := module_of ''/X1'' [] [''/A'']))
        2 [(''/A'', 0), (''/X1'', 1)] [''/A''])
     \<lparr>tasks := [\<lparr>task_module = 0, task_previous = [(''./x'', ''/X1'')], task_root = 0,
                  task_parent = None, task_status = AwaitTransform\<rparr>]\<rparr>"

text \<open>The same graph when \<open>/A\<close> has stopped importing \<open>/B\<close>: \<open>processModule\<close> has replaced
  the dependencies of \<open>/A\<close> and is about to call \<open>removeDependency\<close> for \<open>/B\<close>.\<close>

definition diamond_dropped :: Config where
  "diamond_dropped =
     diamond_config\<lparr>heap := (heap diamond_config)
       (0 := module_of ''/A'' [(''./C'', ''/C'')] [])\<rparr>"

text \<open>An entry point \<open>/A\<close> and a module \<open>/B\<close> that import each other.\<close>

definition cycle :: "string \<Rightarrow> string list" where
  "cycle p = (if p = ''/A'' then [''./B''] else if p = ''/B'' then [''./A''] else [])"

definition cycle_config :: Config where
  "cycle_config =
     config_of
       ((\<lambda>r. module_of [] [] [])
          (0 := module_of ''/A'' [(''./B'', ''/B'')] [''/B''],
           1 := module_of ''/B'' [(''./A'', ''/A'')] [''/A'']))
       2 [(''/A'', 0), (''/B'', 1)] [''/A'']"

text \<open>The files after \<open>/A\<close> has dropped its import of \<open>/B\<close>.\<close>

definition cycle_cut :: "string \<Rightarrow> string list" where
  "cycle_cut p = (if p = ''/B'' then [''./A''] else [])"

text \<open>The diamond after \<open>/B\<close> has gained an import of a new file \<open>/E\<close>; \<open>/B\<close> and \<open>/C\<close>
  are traversed in one pass.  The transform of \<open>/B\<close> resolves first, then that of \<open>/C\<close>,
  which returns at once, then that of \<open>/E\<close>.\<close>

definition diamond_grown :: "string \<Rightarrow> string list" where
  "diamond_grown p = (if p = ''/B'' then [''./D'', ''./E''] else diamond p)"

definition two_paths_pass :: "failure + (Config \<times> Result)" where
  "two_paths_pass =
     traverseDependencies 1 (files diamond_grown)
       [TransformDone 0, TransformDone 1, Finish 1, TransformDone 2, Finish 2, Finish 0]
       [''/B'', ''/C''] diamond_config"

text \<open>The cold start of the diamond, with the transform of \<open>/B\<close> resolving before that of
  \<open>/C\<close>.\<close>

definition diamond_cold_start :: "failure + (Config \<times> Result)" where
  "diamond_cold_start =
     initialTraverseDependencies 6 (files diamond)
       [TransformDone 0, TransformDone 1, TransformDone 2, TransformDone 3,
        Finish 3, Finish 1, Finish 2, Finish 0]
       (empty_config [''/A''])"

text \<open>The same cold start with the transform of \<open>/C\<close> resolving before that of \<open>/B\<close>.\<close>

definition diamond_cold_start_C_first :: "failure + (Config \<times> Result)" where
  "diamond_cold_start_C_first =
     initialTraverseDependencies 6 (files diamond)
       [TransformDone 0, TransformDone 2, TransformDone 1, TransformDone 3,
        Finish 3, Finish 2, Finish 1, Finish 0]
       (empty_config [''/A''])"



text \<open>A pass over the built diamond in which only \<open>/D\<close> of the three changed paths has a
  module.\<close>

definition missing_pass :: "failure + (Config \<times> Result)" where
  "missing_pass =
     traverseDependencies 1 (files diamond) [TransformDone 0, Finish 0]
       [''/gone'', ''/D'', ''/other''] diamond_config"


text \<open>The cold start of the cycle.\<close>

definition cycle_cold_start :: "failure + (Config \<times> Result)" where
  "cycle_cold_start =
     initialTraverseDependencies 4 (files cycle)
       [TransformDone 0, TransformDone 1, Finish 1, Finish 0] (empty_config [''/A''])"

text \<open>The files of the cycle after \<open>/A\<close> has rewritten its import of \<open>/B\<close> as \<open>./B.js\<close>:
  the old and the new specifier resolve to the same file.\<close>

definition respecified :: Options where
  "respecified =
     \<lparr>resolve = (\<lambda>parentPath relativePath. Some (CHR ''/'' # take 1 (drop 2 relativePath))),
      transform = (\<lambda>p. Some \<lparr>tr_dependencies =
                               (if p = ''/A'' then [''./B.js'']
                                else if p = ''/B'' then [''./A''] else []),
                              tr_output = no_output\<rparr>),
      onProgress = True\<rparr>"

section \<open>Well-formed graphs and the effect of a removal\<close>

text \<open>\<open>graph.dependencies.get(k)\<close>.\<close>

abbreviation graph_get :: "Config \<Rightarrow> string \<Rightarrow> ref option" where
  "graph_get c k \<equiv> map_of (graph_dependencies (graph c)) k"

text \<open>Every module of the graph is stored under its own \<open>path\<close>, as \<open>createModule\<close>
  stores it.\<close>

definition paths_agree :: "Config \<Rightarrow> bool" where
  "paths_agree c =
     list_all (\<lambda>e. path (heap c (snd e)) = fst e) (graph_dependencies (graph c))"

text \<open>Every edge between two modules of the graph is recorded at its target: a module
  that lists \<open>d\<close> among its dependencies is among the \<open>inverseDependencies\<close> of \<open>d\<close>.\<close>

definition edges_recorded :: "Config \<Rightarrow> bool" where
  "edges_recorded c =
     list_all (\<lambda>e.
        list_all (\<lambda>d. case graph_get c d of
                         None \<Rightarrow> True
                       | Some q \<Rightarrow> fst e \<in> set (inverseDependencies (heap c q)))
          (map snd (dependencies (heap c (snd e)))))
       (graph_dependencies (graph c))"

text \<open>The paths that some module of the graph lists as a dependency.\<close>

definition targets :: "Config \<Rightarrow> string set" where
  "targets c =
     (\<Union>e \<in> set (graph_dependencies (graph c)). snd ` set (dependencies (heap c (snd e))))"

text \<open>
  What calls of \<open>removeDependency\<close> with a parent of path \<open>pp\<close> on the paths \<open>A\<close> may change
  between \<open>c\<close> and \<open>c'\<close>: referrers are dropped, paths are marked deleted and modules leave
  the graph; a referrer that is dropped is \<open>pp\<close> or marked deleted; and in a graph whose
  paths agree, a module that leaves had lost every referrer, is marked deleted, and was
  stored under a path of \<open>A\<close> or under a dependency of a module.
\<close>

definition removal :: "string \<Rightarrow> string set \<Rightarrow> Config \<Rightarrow> Config \<Rightarrow> bool" where
  "removal pp A c c' \<longleftrightarrow>
     tasks c' = tasks c \<and> counters c' = counters c \<and> progress c' = progress c
     \<and> nextRef c' = nextRef c \<and> entryPoints (graph c') = entryPoints (graph c)
     \<and> added (delta c') = added (delta c) \<and> modified (delta c') = modified (delta c)
     \<and> set (deleted (delta c)) \<subseteq> set (deleted (delta c'))
     \<and> (\<forall>r. path (heap c' r) = path (heap c r)
            \<and> dependencies (heap c' r) = dependencies (heap c r)
            \<and> module_output (heap c' r) = module_output (heap c r)
            \<and> set (inverseDependencies (heap c' r)) \<subseteq> set (inverseDependencies (heap c r))
            \<and> set (inverseDependencies (heap c r))
                 \<subseteq> set (inverseDependencies (heap c' r)) \<union> {pp} \<union> set (deleted (delta c')))
     \<and> (\<exists>R. graph_dependencies (graph c') =
               filter (\<lambda>e. fst e \<notin> R) (graph_dependencies (graph c)))
     \<and> (paths_agree c \<longrightarrow>
           (\<forall>k q. graph_get c k = Some q \<and> graph_get c' k = None \<longrightarrow>
               inverseDependencies (heap c' q) = [] \<and> k \<in> set (deleted (delta c'))
               \<and> k \<in> A \<union> targets c))"

text \<open>
  The graph while a cascade of removals runs: \<open>X\<close> are the paths of the modules whose loop
  over their dependencies has begun and which are still in the graph.  They have no
  referrer left, and the edges of every other module are recorded.
\<close>

definition cascade_inv :: "Config \<Rightarrow> string set \<Rightarrow> bool" where
  "cascade_inv c X \<longleftrightarrow>
     paths_agree c
     \<and> (\<forall>x \<in> X. \<exists>q. graph_get c x = Some q \<and> inverseDependencies (heap c q) = [])
     \<and> (\<forall>k r d q. graph_get c k = Some r \<and> k \<notin> X
            \<and> d \<in> snd ` set (dependencies (heap c r)) \<and> graph_get c d = Some q
            \<longrightarrow> k \<in> set (inverseDependencies (heap c q)))"

section \<open>Bookkeeping of the progress callbacks\<close>

text \<open>The arguments of the calls of \<open>onProgress\<close> made by the single-file traversal \<open>k\<close>.\<close>

definition calls_of :: "nat \<Rightarrow> (nat \<times> nat \<times> nat) list \<Rightarrow> (nat \<times> nat) list" where
  "calls_of k pr = map snd (filter (\<lambda>e. fst e = k) pr)"

text \<open>The calls of \<open>processModule\<close> on behalf of the traversal \<open>k\<close> that have not
  returned.\<close>

definition pending_of :: "nat \<Rightarrow> Task list \<Rightarrow> nat" where
  "pending_of k ts = length (filter (\<lambda>u. task_root u = k \<and> task_status u \<noteq> Done) ts)"

text \<open>
  What holds of tasks, counters and calls whenever the code is suspended: \<open>total\<close> exceeds
  \<open>numProcessed\<close> by the number of pending calls; the calls of each traversal never
  decrease in either argument, never pass \<open>numProcessed\<close> above \<open>total\<close>, and the last of
  them passed the current counters.
\<close>

definition progress_ok ::
  "Task list \<Rightarrow> (nat \<Rightarrow> nat \<times> nat) \<Rightarrow> (nat \<times> nat \<times> nat) list \<Rightarrow> bool" where
  "progress_ok ts cs pr \<longleftrightarrow>
     (\<forall>u \<in> set ts. task_root u < length ts)
     \<and> (\<forall>e \<in> set pr. fst e < length ts)
     \<and> (\<forall>k \<ge> length ts. cs k = (0, 0))
     \<and> (\<forall>k. fst (cs k) + pending_of k ts = snd (cs k))
     \<and> (\<forall>k. sorted (map fst (calls_of k pr)) \<and> sorted (map snd (calls_of k pr))
            \<and> (\<forall>e \<in> set (calls_of k pr).
                  fst e \<le> snd e \<and> fst e \<le> fst (cs k) \<and> snd e \<le> snd (cs k))
            \<and> (calls_of k pr = [] \<or> last (calls_of k pr) = cs k))"

text \<open>A task comes after the task that awaits it, and that task does not return before
  it.\<close>

definition parents_ok :: "Task list \<Rightarrow> bool" where
  "parents_ok ts \<longleftrightarrow>
     (\<forall>u < length ts. \<forall>p. task_parent (ts ! u) = Some p \<longrightarrow>
        p < u \<and> (task_status (ts ! p) = Done \<longrightarrow> task_status (ts ! u) = Done))"

text \<open>The two together, for a pass with the collaborators \<open>options\<close>: without a
  callback no call is listed.\<close>

definition pass_inv :: "Options \<Rightarrow> Config \<Rightarrow> bool" where
  "pass_inv options c \<longleftrightarrow>
     progress_ok (tasks c) (counters c) (progress c) \<and> parents_ok (tasks c)
     \<and> (onProgress options \<or> progress c = [])"

section \<open>Modules reachable from the entry points\<close>

inductive_set reach :: "Config \<Rightarrow> ref set" for c :: Config where
  entry: "e \<in> set (entryPoints (graph c)) \<Longrightarrow> graph_get c e = Some r \<Longrightarrow> r \<in> reach c"
| dep: "r \<in> reach c \<Longrightarrow> d \<in> snd ` set (dependencies (heap c r)) \<Longrightarrow>
        graph_get c d = Some q \<Longrightarrow> q \<in> reach c"

text \<open>
  Notions for the depth-first traversal of \<open>reorderDependencies\<close> over the modules \<open>ds\<close> in
  the heap \<open>h\<close>: the modules are stored under their non-empty paths; a set of modules is
  closed under dependencies; an ordering lists only modules of \<open>ds\<close> in \<open>R\<close>; and every
  module listed outside of \<open>S\<close> has its dependencies listed too.
\<close>

definition keyed :: "(ref \<Rightarrow> Module) \<Rightarrow> (string \<times> ref) list \<Rightarrow> bool" where
  "keyed h ds \<longleftrightarrow> (\<forall>k r. map_of ds k = Some r \<longrightarrow> path (h r) = k \<and> k \<noteq> [])"




section \<open>Graphs built by \<open>createModule\<close>\<close>

text \<open>Every module is stored under its path, lives at an address that has been handed
  out, and no module has the empty path, which \<open>reorderDependencies\<close> takes for the
  synthetic parent.\<close>

definition graph_inv :: "Config \<Rightarrow> bool" where
  "graph_inv c \<longleftrightarrow>
     paths_agree c
     \<and> list_all (\<lambda>e. snd e < nextRef c) (graph_dependencies (graph c))
     \<and> graph_get c [] = None"

section \<open>A pass over freshly created modules\<close>

text \<open>The dependencies that \<open>processModule\<close> computes for the file \<open>p\<close>.\<close>

definition current_of :: "Options \<Rightarrow> string \<Rightarrow> (string \<times> string) list option" where
  "current_of options p =
     (case transform options p of
        None \<Rightarrow> None
      | Some result \<Rightarrow> resolveDependencies p (tr_dependencies result) options)"

text \<open>The edge from \<open>x\<close> to \<open>d\<close> is recorded: \<open>d\<close> has a module, which has \<open>x\<close> as a
  referrer.\<close>

definition recorded :: "Config \<Rightarrow> string \<Rightarrow> string \<Rightarrow> bool" where
  "recorded c x d \<longleftrightarrow>
     (\<exists>q. graph_get c d = Some q \<and> x \<in> set (inverseDependencies (heap c q)))"

text \<open>The module \<open>r\<close> holds the dependencies of its file, and each of them is recorded.\<close>

definition processed :: "Options \<Rightarrow> Config \<Rightarrow> ref \<Rightarrow> bool" where
  "processed options c r \<longleftrightarrow>
     (\<exists>cur. current_of options (path (heap c r)) = Some cur
        \<and> dependencies (heap c r) = set_all cur []
        \<and> (\<forall>d \<in> snd ` set cur. recorded c (path (heap c r)) d))"

text \<open>
  What holds during a pass in which every task started on a module without dependencies,
  as in a cold start on an empty graph: no task has previous dependencies, so nothing is
  removed; the module of a task is in the graph, and processed once the transform has
  resolved; every module of the graph has a task, and its referrers are files that import
  it; the entry points are in the graph.
\<close>

definition cold_inv :: "Options \<Rightarrow> Config \<Rightarrow> bool" where
  "cold_inv options c \<longleftrightarrow>
     graph_inv c
     \<and> (\<forall>u \<in> set (tasks c).
           task_previous u = []
           \<and> graph_get c (path (heap c (task_module u))) = Some (task_module u)
           \<and> (task_status u \<noteq> AwaitTransform \<longrightarrow> processed options c (task_module u)))
     \<and> (\<forall>k r. graph_get c k = Some r \<longrightarrow>
           r \<in> task_module ` set (tasks c)
           \<and> (\<forall>x \<in> set (inverseDependencies (heap c r)).
                 \<exists>cur. current_of options x = Some cur \<and> k \<in> snd ` set cur))
     \<and> (\<forall>e \<in> set (entryPoints (graph c)). graph_get c e \<noteq> None)"

text \<open>The graph and the heap have only grown between \<open>c\<close> and \<open>c'\<close>.\<close>

definition extends :: "Config \<Rightarrow> Config \<Rightarrow> bool" where
  "extends c c' \<longleftrightarrow>
     (\<forall>k r. graph_get c k = Some r \<longrightarrow> graph_get c' k = Some r)
     \<and> (\<forall>r < nextRef c.
           path (heap c' r) = path (heap c r)
           \<and> dependencies (heap c' r) = dependencies (heap c r)
           \<and> set (inverseDependencies (heap c r)) \<subseteq> set (inverseDependencies (heap c' r)))
     \<and> nextRef c \<le> nextRef c'"


text \<open>
  The files that the entry points \<open>es\<close> import, directly or through other files, according
  to the collaborators.
\<close>

inductive_set imported :: "Options \<Rightarrow> string list \<Rightarrow> string set"
  for options :: Options and es :: "string list" where
  entry_file: "e \<in> set es \<Longrightarrow> e \<in> imported options es"
| dep_file: "p \<in> imported options es \<Longrightarrow> current_of options p = Some cur \<Longrightarrow>
     d \<in> snd ` set cur \<Longrightarrow> d \<in> imported options es"

text \<open>
  A set of files on which the collaborators succeed and which they do not leave: none is
  the empty path, the transform of each resolves, each of its specifiers resolves, and to a
  file of the set.
\<close>

definition closed_files :: "Options \<Rightarrow> string set \<Rightarrow> bool" where
  "closed_files options F \<longleftrightarrow>
     [] \<notin> F
     \<and> (\<forall>p \<in> F. case current_of options p of
                     None \<Rightarrow> False
                   | Some cur \<Rightarrow> snd ` set cur \<subseteq> F)"

text \<open>The paths of the graph, and the referrers of its modules, are files of \<open>F\<close>.\<close>

definition within :: "string set \<Rightarrow> Config \<Rightarrow> bool" where
  "within F c \<longleftrightarrow>
     (\<forall>k r. graph_get c k = Some r \<longrightarrow>
        k \<in> F \<and> set (inverseDependencies (heap c r)) \<subseteq> F)"

text \<open>
  A bound on what is left of a pass over the files \<open>F\<close>: a file without a module may
  still get one, a transform that is outstanding will resolve and its call return, and a
  call that awaits its dependencies will return.
\<close>

fun weight :: "Status \<Rightarrow> nat" where
  "weight AwaitTransform = 2"
| "weight AwaitChildren = 1"
| "weight Done = 0"

definition remaining :: "string set \<Rightarrow> Config \<Rightarrow> nat" where
  "remaining F c =
     2 * card (F - fst ` set (graph_dependencies (graph c)))
     + sum_list (map (weight \<circ> task_status) (tasks c))"

section \<open>Changed paths at the start of a pass\<close>

text \<open>The changed paths that have a module in the graph, in the order in which they were
  given.\<close>

definition present :: "Config \<Rightarrow> string list \<Rightarrow> string list" where
  "present c paths = filter (map_has (graph_dependencies (graph c))) paths"

text \<open>The call of \<open>processModule\<close> that \<open>traverseDependenciesForSingleFile\<close> makes for the
  module stored under \<open>p\<close>, as call number \<open>k\<close> of the pass, suspended at its transform.\<close>

definition root_task :: "Config \<Rightarrow> nat \<Rightarrow> string \<Rightarrow> Task" where
  "root_task c k p =
     \<lparr>task_module = the (graph_get c p),
      task_previous = dependencies (heap c (the (graph_get c p))),
      task_root = k, task_parent = None, task_status = AwaitTransform\<rparr>"

text \<open>\<open>delta.modified.set(module.path, module)\<close> for the module stored under \<open>p\<close>.\<close>

definition mark_modified :: "Config \<Rightarrow> string \<Rightarrow> (string \<times> ref) list \<Rightarrow> (string \<times> ref) list" where
  "mark_modified c p m =
     AList.update (path (heap c (the (graph_get c p)))) (the (graph_get c p)) m"

section \<open>Properties of the reconciliation\<close>

lemma map_has_Nil [simp]: "\<not> map_has [] k"
  by (simp add: map_has_def)

lemma map_has_set_all:
  "map_has (set_all src target) k \<longleftrightarrow> map_has src k \<or> map_has target k"
  unfolding set_all_def
proof (induction src arbitrary: target)
  case Nil
  show ?case by (simp add: map_has_def)
next
  case (Cons a src)
  show ?case
    by (cases a) (simp add: Cons.IH, auto simp add: map_has_def update_conv')
qed

lemma map_has_delete:
  "map_has (AList.delete p m) k \<longleftrightarrow> k \<noteq> p \<and> map_has m k"
  by (simp add: map_has_def delete_conv')

lemma set_set_add: "set (set_add x xs) = insert x (set xs)"
  by (auto simp add: set_add_def)

lemma distinct_set_add: "distinct xs \<Longrightarrow> distinct (set_add x xs)"
  by (simp add: set_add_def)

lemma reconcile_deleted_added:
  "map_has (fst (reconcile_deleted ps a m d)) k \<longleftrightarrow> k \<notin> set ps \<and> map_has a k"
  by (induction ps a m d rule: reconcile_deleted.induct)
     (auto simp add: Let_def map_has_delete)

lemma reconcile_deleted_modified:
  "P \<in> set ps \<Longrightarrow> map_has m P \<Longrightarrow> P \<in> set (snd (reconcile_deleted ps a m d))"
  "P \<in> set d \<Longrightarrow> P \<in> set (snd (reconcile_deleted ps a m d))"
  by (induction ps a m d rule: reconcile_deleted.induct)
     (auto simp add: Let_def set_set_add)

lemma reconcile_deleted_set:
  "distinct ps \<Longrightarrow>
    set (snd (reconcile_deleted ps a m d)) =
      set d \<union> {p \<in> set ps. \<not> map_has a p \<or> map_has m p}"
proof (induction ps arbitrary: a d)
  case Nil
  show ?case by simp
next
  case (Cons p ps)
  have same: "\<And>q. q \<in> set ps \<Longrightarrow> map_has (AList.delete p a) q = map_has a q"
    using Cons.prems by (auto simp add: map_has_delete)
  have "{q \<in> set ps. \<not> map_has (AList.delete p a) q \<or> map_has m q} =
        {q \<in> set ps. \<not> map_has a q \<or> map_has m q}"
    using same by blast
  with Cons show ?case
    by (auto simp add: Let_def set_set_add)
qed

lemma reconcile_sel:
  "result_added (reconcile d) =
     fst (reconcile_deleted (deleted d) (set_all (modified d) (set_all (added d) []))
            (set_all (modified d) []) [])"
  "result_deleted (reconcile d) =
     snd (reconcile_deleted (deleted d) (set_all (modified d) (set_all (added d) []))
            (set_all (modified d) []) [])"
  by (simp_all add: reconcile_def Let_def split: prod.splits)

section \<open>Starting a pass\<close>

lemma graph_traverseDependenciesForSingleFile [simp]:
  "graph (traverseDependenciesForSingleFile options r c) = graph c"
  by (simp add: traverseDependenciesForSingleFile_def Let_def processModule_start_def report_def)

lemma graph_new_pass [simp]: "graph (new_pass c) = graph c"
  by (simp add: new_pass_def)

lemma start_paths_filter:
  "start_paths options ps c =
     start_paths options (filter (map_has (graph_dependencies (graph c))) ps) c"
proof -
  have "graph c = g \<Longrightarrow>
        start_paths options ps c = start_paths options (filter (map_has (graph_dependencies g)) ps) c"
    for g
    by (induction ps arbitrary: c) (auto simp add: map_has_def split: option.splits)
  then show ?thesis by simp
qed

section \<open>Specifiers kept by a module\<close>

lemma map_has_keys: "map_has m k \<longleftrightarrow> k \<in> fst ` set m"
  by (simp add: map_has_def map_of_eq_None_iff)



section \<open>What \<open>removeDependency\<close> changes\<close>



lemma paths_agree_get:
  "paths_agree c \<Longrightarrow> graph_get c k = Some r \<Longrightarrow> path (heap c r) = k"
  by (auto simp add: paths_agree_def list_all_iff dest!: map_of_SomeD)

lemma map_of_filter_key:
  "map_of (filter (\<lambda>e. fst e \<notin> R) xs) k = (if k \<in> R then None else map_of xs k)"
  by (induction xs) auto

lemma delete_as_filter: "AList.delete k xs = filter (\<lambda>e. fst e \<notin> {k}) xs"
  by (induction xs) auto

lemma filter_filter_key:
  "filter (\<lambda>e. fst e \<notin> R) (filter (\<lambda>e. fst e \<notin> S) xs) = filter (\<lambda>e. fst e \<notin> R \<union> S) xs"
  by (induction xs) auto

lemma targets_filter:
  "graph_dependencies (graph c') = filter (\<lambda>e. fst e \<notin> R) (graph_dependencies (graph c))
    \<Longrightarrow> \<forall>r. dependencies (heap c' r) = dependencies (heap c r)
    \<Longrightarrow> targets c' \<subseteq> targets c"
  by (auto simp add: targets_def)

lemma targets_get:
  "graph_get c k = Some r \<Longrightarrow> snd ` set (dependencies (heap c r)) \<subseteq> targets c"
  by (force simp add: targets_def dest!: map_of_SomeD)

lemma removal_refl: "removal pp A c c"
proof -
  have "graph_dependencies (graph c) = filter (\<lambda>e. fst e \<notin> {}) (graph_dependencies (graph c))"
    by simp
  then have "\<exists>R. graph_dependencies (graph c) = filter (\<lambda>e. fst e \<notin> R) (graph_dependencies (graph c))"
    by (rule exI)
  then show ?thesis
    by (auto simp add: removal_def)
qed

lemma removal_paths_agree:
  assumes "removal pp A c c'" and "paths_agree c"
  shows "paths_agree c'"
proof -
  from assms(1) obtain R where
    R: "graph_dependencies (graph c') = filter (\<lambda>e. fst e \<notin> R) (graph_dependencies (graph c))"
    and p: "\<forall>r. path (heap c' r) = path (heap c r)"
    by (auto simp add: removal_def)
  show ?thesis
    using assms(2) by (simp add: paths_agree_def R p list_all_iff)
qed

lemma removal_get:
  assumes "removal pp A c c'" and "graph_get c' k = Some r"
  shows "graph_get c k = Some r"
proof -
  from assms(1) obtain R where
    R: "graph_dependencies (graph c') = filter (\<lambda>e. fst e \<notin> R) (graph_dependencies (graph c))"
    by (auto simp add: removal_def)
  show ?thesis
    using assms(2) by (simp add: R map_of_filter_key split: if_splits)
qed

lemma removal_targets:
  assumes "removal pp A c c'"
  shows "targets c' \<subseteq> targets c"
proof -
  from assms(1) obtain R where
    R: "graph_dependencies (graph c') = filter (\<lambda>e. fst e \<notin> R) (graph_dependencies (graph c))"
    and p: "\<forall>r. dependencies (heap c' r) = dependencies (heap c r)"
    by (auto simp add: removal_def)
  show ?thesis by (rule targets_filter [OF R p])
qed

lemma removal_trans:
  assumes 1: "removal pp A c c'" and 2: "removal pp B c' c''"
    and AB: "A \<subseteq> C" "B \<subseteq> C"
  shows "removal pp C c c''"
proof -
  from 1 obtain R where
    R: "graph_dependencies (graph c') = filter (\<lambda>e. fst e \<notin> R) (graph_dependencies (graph c))"
    by (auto simp add: removal_def)
  from 2 obtain S where
    S: "graph_dependencies (graph c'') = filter (\<lambda>e. fst e \<notin> S) (graph_dependencies (graph c'))"
    by (auto simp add: removal_def)
  have ex: "\<exists>R. graph_dependencies (graph c'') =
               filter (\<lambda>e. fst e \<notin> R) (graph_dependencies (graph c))"
    by (rule exI [of _ "R \<union> S"]) (simp add: R S)
  have frame: "tasks c'' = tasks c \<and> counters c'' = counters c \<and> progress c'' = progress c
     \<and> nextRef c'' = nextRef c \<and> entryPoints (graph c'') = entryPoints (graph c)
     \<and> added (delta c'') = added (delta c) \<and> modified (delta c'') = modified (delta c)
     \<and> set (deleted (delta c)) \<subseteq> set (deleted (delta c''))"
    using 1 2 by (auto simp add: removal_def)
  have heap1: "\<And>r. path (heap c' r) = path (heap c r)
            \<and> dependencies (heap c' r) = dependencies (heap c r)
            \<and> module_output (heap c' r) = module_output (heap c r)
            \<and> set (inverseDependencies (heap c' r)) \<subseteq> set (inverseDependencies (heap c r))
            \<and> set (inverseDependencies (heap c r))
                 \<subseteq> set (inverseDependencies (heap c' r)) \<union> {pp} \<union> set (deleted (delta c'))"
    using 1 by (simp add: removal_def)
  have heap2: "\<And>r. path (heap c'' r) = path (heap c' r)
            \<and> dependencies (heap c'' r) = dependencies (heap c' r)
            \<and> module_output (heap c'' r) = module_output (heap c' r)
            \<and> set (inverseDependencies (heap c'' r)) \<subseteq> set (inverseDependencies (heap c' r))
            \<and> set (inverseDependencies (heap c' r))
                 \<subseteq> set (inverseDependencies (heap c'' r)) \<union> {pp} \<union> set (deleted (delta c''))"
    using 2 by (simp add: removal_def)
  have del: "set (deleted (delta c')) \<subseteq> set (deleted (delta c''))"
    using 2 by (simp add: removal_def)
  have heap: "\<forall>r. path (heap c'' r) = path (heap c r)
            \<and> dependencies (heap c'' r) = dependencies (heap c r)
            \<and> module_output (heap c'' r) = module_output (heap c r)
            \<and> set (inverseDependencies (heap c'' r)) \<subseteq> set (inverseDependencies (heap c r))
            \<and> set (inverseDependencies (heap c r))
                 \<subseteq> set (inverseDependencies (heap c'' r)) \<union> {pp} \<union> set (deleted (delta c''))"
  proof
    fix r
    show "path (heap c'' r) = path (heap c r)
            \<and> dependencies (heap c'' r) = dependencies (heap c r)
            \<and> module_output (heap c'' r) = module_output (heap c r)
            \<and> set (inverseDependencies (heap c'' r)) \<subseteq> set (inverseDependencies (heap c r))
            \<and> set (inverseDependencies (heap c r))
                 \<subseteq> set (inverseDependencies (heap c'' r)) \<union> {pp} \<union> set (deleted (delta c''))"
      using heap1 [of r] heap2 [of r] del by auto
  qed
  have wf: "\<forall>k q. graph_get c k = Some q \<and> graph_get c'' k = None \<longrightarrow>
               inverseDependencies (heap c'' q) = [] \<and> k \<in> set (deleted (delta c''))
               \<and> k \<in> C \<union> targets c" if pa: "paths_agree c"
  proof (intro allI impI)
    fix k q
    assume a: "graph_get c k = Some q \<and> graph_get c'' k = None"
    have pa': "paths_agree c'" by (rule removal_paths_agree [OF 1 pa])
    have w1: "\<And>k q. graph_get c k = Some q \<Longrightarrow> graph_get c' k = None \<Longrightarrow>
               inverseDependencies (heap c' q) = [] \<and> k \<in> set (deleted (delta c'))
               \<and> k \<in> A \<union> targets c"
      using 1 pa by (simp add: removal_def)
    have w2: "\<And>k q. graph_get c' k = Some q \<Longrightarrow> graph_get c'' k = None \<Longrightarrow>
               inverseDependencies (heap c'' q) = [] \<and> k \<in> set (deleted (delta c''))
               \<and> k \<in> B \<union> targets c'"
      using 2 pa' by (simp add: removal_def)
    show "inverseDependencies (heap c'' q) = [] \<and> k \<in> set (deleted (delta c''))
               \<and> k \<in> C \<union> targets c"
    proof (cases "graph_get c' k")
      case None
      from w1 [OF conjunct1 [OF a] None] heap2 [of q] del AB show ?thesis by auto
    next
      case (Some q')
      have "graph_get c k = Some q'" by (rule removal_get [OF 1 Some])
      with a have "q' = q" by simp
      with w2 [OF Some conjunct2 [OF a]] removal_targets [OF 1] AB show ?thesis by auto
    qed
  qed
  show ?thesis
    unfolding removal_def using frame heap ex wf by blast
qed



lemma removal_inverse_delete:
  "removal pp A c (inverse_delete r pp c)"
proof -
  have "graph_dependencies (graph c) = filter (\<lambda>e. fst e \<notin> {}) (graph_dependencies (graph c))"
    by simp
  then have ex: "\<exists>R. graph_dependencies (graph (inverse_delete r pp c)) =
      filter (\<lambda>e. fst e \<notin> R) (graph_dependencies (graph c))"
    unfolding inverse_delete_def by (simp, rule exI)
  have g: "graph_get (inverse_delete r pp c) = graph_get c"
    by (simp add: inverse_delete_def)
  show ?thesis
    unfolding removal_def g
    using ex by (auto simp add: inverse_delete_def set_delete_def)
qed


lemma removal_frame:
  assumes "removal pp A c c'"
  shows "tasks c' = tasks c" "counters c' = counters c" "progress c' = progress c"
    "nextRef c' = nextRef c" "entryPoints (graph c') = entryPoints (graph c)"
    "added (delta c') = added (delta c)" "modified (delta c') = modified (delta c)"
    "set (deleted (delta c)) \<subseteq> set (deleted (delta c'))"
  using assms by (simp_all add: removal_def)

lemma removal_heap:
  assumes "removal pp A c c'"
  shows "path (heap c' r) = path (heap c r)"
    "dependencies (heap c' r) = dependencies (heap c r)"
    "module_output (heap c' r) = module_output (heap c r)"
    "set (inverseDependencies (heap c' r)) \<subseteq> set (inverseDependencies (heap c r))"
    "set (inverseDependencies (heap c r))
       \<subseteq> set (inverseDependencies (heap c' r)) \<union> {pp} \<union> set (deleted (delta c'))"
proof -
  from assms have "\<forall>r. path (heap c' r) = path (heap c r)
            \<and> dependencies (heap c' r) = dependencies (heap c r)
            \<and> module_output (heap c' r) = module_output (heap c r)
            \<and> set (inverseDependencies (heap c' r)) \<subseteq> set (inverseDependencies (heap c r))
            \<and> set (inverseDependencies (heap c r))
                 \<subseteq> set (inverseDependencies (heap c' r)) \<union> {pp} \<union> set (deleted (delta c'))"
    by (simp add: removal_def)
  then have h: "path (heap c' r) = path (heap c r)
            \<and> dependencies (heap c' r) = dependencies (heap c r)
            \<and> module_output (heap c' r) = module_output (heap c r)
            \<and> set (inverseDependencies (heap c' r)) \<subseteq> set (inverseDependencies (heap c r))
            \<and> set (inverseDependencies (heap c r))
                 \<subseteq> set (inverseDependencies (heap c' r)) \<union> {pp} \<union> set (deleted (delta c'))"
    by (rule spec)
  from h show "path (heap c' r) = path (heap c r)" by simp
  from h show "dependencies (heap c' r) = dependencies (heap c r)" by simp
  from h show "module_output (heap c' r) = module_output (heap c r)" by simp
  from h show "set (inverseDependencies (heap c' r)) \<subseteq> set (inverseDependencies (heap c r))"
    by simp
  from h show "set (inverseDependencies (heap c r))
       \<subseteq> set (inverseDependencies (heap c' r)) \<union> {pp} \<union> set (deleted (delta c'))"
    by simp
qed

lemma removal_filter:
  assumes "removal pp A c c'"
  shows "\<exists>R. graph_dependencies (graph c') =
               filter (\<lambda>e. fst e \<notin> R) (graph_dependencies (graph c))"
  using assms by (simp add: removal_def)

lemma removal_left:
  assumes "removal pp A c c'" and "paths_agree c"
    and "graph_get c k = Some q" and "graph_get c' k = None"
  shows "inverseDependencies (heap c' q) = []" "k \<in> set (deleted (delta c'))"
    "k \<in> A \<union> targets c"
proof -
  from assms(1) have "paths_agree c \<longrightarrow>
           (\<forall>k q. graph_get c k = Some q \<and> graph_get c' k = None \<longrightarrow>
               inverseDependencies (heap c' q) = [] \<and> k \<in> set (deleted (delta c'))
               \<and> k \<in> A \<union> targets c)"
    by (simp add: removal_def)
  with assms(2,3,4) have h: "inverseDependencies (heap c' q) = [] \<and> k \<in> set (deleted (delta c'))
               \<and> k \<in> A \<union> targets c"
    by blast
  from h show "inverseDependencies (heap c' q) = []" by simp
  from h show "k \<in> set (deleted (delta c'))" by simp
  from h show "k \<in> A \<union> targets c" by simp
qed

lemma removalI:
  assumes "tasks c' = tasks c" "counters c' = counters c" "progress c' = progress c"
    "nextRef c' = nextRef c" "entryPoints (graph c') = entryPoints (graph c)"
    "added (delta c') = added (delta c)" "modified (delta c') = modified (delta c)"
    "set (deleted (delta c)) \<subseteq> set (deleted (delta c'))"
    and "\<And>r. path (heap c' r) = path (heap c r)"
    and "\<And>r. dependencies (heap c' r) = dependencies (heap c r)"
    and "\<And>r. module_output (heap c' r) = module_output (heap c r)"
    and "\<And>r. set (inverseDependencies (heap c' r)) \<subseteq> set (inverseDependencies (heap c r))"
    and "\<And>r. set (inverseDependencies (heap c r))
       \<subseteq> set (inverseDependencies (heap c' r)) \<union> {pp} \<union> set (deleted (delta c'))"
    and "graph_dependencies (graph c') =
               filter (\<lambda>e. fst e \<notin> R) (graph_dependencies (graph c))"
    and "\<And>k q. paths_agree c \<Longrightarrow> graph_get c k = Some q \<Longrightarrow> graph_get c' k = None \<Longrightarrow>
               inverseDependencies (heap c' q) = [] \<and> k \<in> set (deleted (delta c'))
               \<and> k \<in> A \<union> targets c"
  shows "removal pp A c c'"
proof -
  have ex: "\<exists>R. graph_dependencies (graph c') =
               filter (\<lambda>e. fst e \<notin> R) (graph_dependencies (graph c))"
    using assms(14) by (rule exI)
  have wf: "paths_agree c \<longrightarrow>
           (\<forall>k q. graph_get c k = Some q \<and> graph_get c' k = None \<longrightarrow>
               inverseDependencies (heap c' q) = [] \<and> k \<in> set (deleted (delta c'))
               \<and> k \<in> A \<union> targets c)"
    using assms(15) by blast
  show ?thesis
    unfolding removal_def
    by (intro conjI allI) (fact assms(1-13) ex wf)+
qed



lemma removal_cascade:
  assumes get: "graph_get c a = Some r"
    and emp: "set_delete pp (inverseDependencies (heap c r)) = []"
    and inner: "removal (path (heap c r)) D
                  (deleted_add (path (heap c r)) (inverse_delete r pp c)) c3"
    and D: "D \<subseteq> snd ` set (dependencies (heap c r))"
  shows "removal pp {a} c (graph_delete (path (heap c r)) c3)"
proof -
  let ?a = "path (heap c r)"
  let ?c2 = "deleted_add ?a (inverse_delete r pp c)"
  let ?c' = "graph_delete ?a c3"
  have c2_simps:
    "tasks ?c2 = tasks c" "counters ?c2 = counters c" "progress ?c2 = progress c"
    "nextRef ?c2 = nextRef c" "graph ?c2 = graph c"
    "added (delta ?c2) = added (delta c)" "modified (delta ?c2) = modified (delta c)"
    "set (deleted (delta ?c2)) = insert ?a (set (deleted (delta c)))"
    by (simp_all add: deleted_add_def inverse_delete_def set_set_add)
  have c2_heap:
    "\<And>x. path (heap ?c2 x) = path (heap c x)"
    "\<And>x. dependencies (heap ?c2 x) = dependencies (heap c x)"
    "\<And>x. module_output (heap ?c2 x) = module_output (heap c x)"
    "\<And>x. inverseDependencies (heap ?c2 x) =
           (if x = r then [] else inverseDependencies (heap c x))"
    using emp by (simp_all add: deleted_add_def inverse_delete_def)
  have c'_simps:
    "tasks ?c' = tasks c3" "counters ?c' = counters c3" "progress ?c' = progress c3"
    "nextRef ?c' = nextRef c3" "entryPoints (graph ?c') = entryPoints (graph c3)"
    "delta ?c' = delta c3" "heap ?c' = heap c3"
    "graph_dependencies (graph ?c') = AList.delete ?a (graph_dependencies (graph c3))"
    by (simp_all add: graph_delete_def)
  from removal_filter [OF inner] obtain R where
    R: "graph_dependencies (graph c3) = filter (\<lambda>e. fst e \<notin> R) (graph_dependencies (graph c))"
    unfolding c2_simps by blast
  note fr = removal_frame [OF inner, unfolded c2_simps]
  note hp = removal_heap [OF inner, unfolded c2_heap]
  have only_pp: "set (inverseDependencies (heap c r)) \<subseteq> {pp}"
  proof
    fix y assume "y \<in> set (inverseDependencies (heap c r))"
    then have "y = pp \<or> y \<in> set (set_delete pp (inverseDependencies (heap c r)))"
      by (auto simp add: set_delete_def)
    then show "y \<in> {pp}" by (simp add: emp)
  qed
  show ?thesis
  proof (rule removalI [where R = "{?a} \<union> R"])
    show "tasks ?c' = tasks c" "counters ?c' = counters c" "progress ?c' = progress c"
      "nextRef ?c' = nextRef c" "entryPoints (graph ?c') = entryPoints (graph c)"
      "added (delta ?c') = added (delta c)" "modified (delta ?c') = modified (delta c)"
      by (simp_all add: c'_simps fr)
    show "set (deleted (delta c)) \<subseteq> set (deleted (delta ?c'))"
      using fr(8) by (simp add: c'_simps)
    show "\<And>x. path (heap ?c' x) = path (heap c x)"
      "\<And>x. dependencies (heap ?c' x) = dependencies (heap c x)"
      "\<And>x. module_output (heap ?c' x) = module_output (heap c x)"
      by (simp_all add: c'_simps hp)
    show "set (inverseDependencies (heap ?c' x)) \<subseteq> set (inverseDependencies (heap c x))" for x
      using hp(4) [of x] by (auto simp add: c'_simps split: if_splits)
    show "set (inverseDependencies (heap c x))
       \<subseteq> set (inverseDependencies (heap ?c' x)) \<union> {pp} \<union> set (deleted (delta ?c'))" for x
    proof (cases "x = r")
      case True
      with only_pp show ?thesis by auto
    next
      case False
      with hp(5) [of x] fr(8) show ?thesis by (auto simp add: c'_simps)
    qed
    show "graph_dependencies (graph ?c') =
               filter (\<lambda>e. fst e \<notin> {?a} \<union> R) (graph_dependencies (graph c))"
      by (simp add: c'_simps R delete_as_filter conj_commute)
  next
    fix k q
    assume pa: "paths_agree c" and kq: "graph_get c k = Some q" "graph_get ?c' k = None"
    have a: "?a = a" by (rule paths_agree_get [OF pa get])
    have pa2: "paths_agree ?c2"
      using pa by (simp add: paths_agree_def c2_simps c2_heap)
    have t2: "targets ?c2 = targets c"
      by (simp add: targets_def c2_simps c2_heap)
    show "inverseDependencies (heap ?c' q) = [] \<and> k \<in> set (deleted (delta ?c'))
               \<and> k \<in> {a} \<union> targets c"
    proof (cases "k = a")
      case True
      with kq get have "q = r" by simp
      moreover have "inverseDependencies (heap c3 r) = []"
        using hp(4) [of r] by simp
      ultimately show ?thesis
        using True fr(8) a by (auto simp add: c'_simps)
    next
      case False
      with kq a have none3: "graph_get c3 k = None"
        by (simp add: graph_delete_def delete_conv')
      have kq2: "graph_get ?c2 k = Some q" using kq by (simp add: c2_simps)
      note w = removal_left [OF inner pa2 kq2 none3, unfolded t2]
      from w D targets_get [OF get] show ?thesis
        by (auto simp add: c'_simps)
    qed
  qed
qed



lemma removeDependency_removal:
  "removeDependency n parentModule a c = Some c' \<Longrightarrow>
     removal (path (heap c parentModule)) {a} c c'"
  "removeDependency_each n parentModule ds c = Some c' \<Longrightarrow>
     removal (path (heap c parentModule)) (set ds) c c'"
proof (induction n parentModule a c and n parentModule ds c arbitrary: c' and c'
    rule: removeDependency_removeDependency_each.induct)
  case (1 parentModule absolutePath c)
  then show ?case by simp
next
  case (2 n parentModule absolutePath c)
  let ?pp = "path (heap c parentModule)"
  show ?case
  proof (cases "graph_get c absolutePath")
    case None
    with "2.prems" show ?thesis by (simp add: removal_refl)
  next
    case (Some r)
    let ?c1 = "inverse_delete r ?pp c"
    show ?thesis
    proof (cases "inverseDependencies (heap ?c1 r) \<noteq> []")
      case True
      with "2.prems" Some have "c' = ?c1" by (simp add: Let_def)
      then show ?thesis by (simp add: removal_inverse_delete)
    next
      case False
      have p1: "path (heap ?c1 r) = path (heap c r)"
        and d1: "dependencies (heap ?c1 r) = dependencies (heap c r)"
        by (simp_all add: inverse_delete_def)
      from "2.prems" Some False obtain c3 where
        c3: "removeDependency_each n r (map snd (dependencies (heap ?c1 r)))
               (deleted_add (path (heap ?c1 r)) ?c1) = Some c3"
        and c': "c' = graph_delete (path (heap c3 r)) c3"
        by (auto simp add: Let_def split: option.splits)
      have inner: "removal (path (heap (deleted_add (path (heap ?c1 r)) ?c1) r))
          (set (map snd (dependencies (heap ?c1 r)))) (deleted_add (path (heap ?c1 r)) ?c1) c3"
        using "2.IH" [OF Some refl False c3] .
      have p3: "path (heap c3 r) = path (heap c r)"
        using inner by (simp add: removal_def deleted_add_def inverse_delete_def)
      have emp: "set_delete ?pp (inverseDependencies (heap c r)) = []"
        using False by (simp add: inverse_delete_def)
      have "removal ?pp {absolutePath} c (graph_delete (path (heap c r)) c3)"
      proof (rule removal_cascade [OF Some emp _ subset_refl])
        show "removal (path (heap c r)) (snd ` set (dependencies (heap c r)))
               (deleted_add (path (heap c r)) ?c1) c3"
          using inner by (simp add: p1 d1 deleted_add_def inverse_delete_def)
      qed
      then show ?thesis by (simp add: c' p3)
    qed
  qed
next
  case (3 n parentModule c)
  then show ?case by (simp add: removal_refl)
next
  case (4 n parentModule d ds c)
  from "4.prems" obtain c1 where
    c1: "removeDependency n parentModule d c = Some c1"
    and rest: "removeDependency_each n parentModule ds c1 = Some c'"
    by (auto split: option.splits)
  have r1: "removal (path (heap c parentModule)) {d} c c1"
    by (rule "4.IH"(1) [OF c1])
  have pp: "path (heap c1 parentModule) = path (heap c parentModule)"
    using r1 by (simp add: removal_def)
  have r2: "removal (path (heap c parentModule)) (set ds) c1 c'"
    using "4.IH"(2) [OF c1 rest] by (simp add: pp)
  show ?case
    by (rule removal_trans [OF r1 r2]) auto
qed

section \<open>\<open>removeDependency\<close> returns on a graph whose edges are recorded\<close>


lemma removeDependency_mono:
  "removeDependency n parentModule a c = Some c' \<Longrightarrow>
     removeDependency (n + k) parentModule a c = Some c'"
  "removeDependency_each n parentModule ds c = Some c' \<Longrightarrow>
     removeDependency_each (n + k) parentModule ds c = Some c'"
proof (induction n parentModule a c and n parentModule ds c arbitrary: c' and c'
    rule: removeDependency_removeDependency_each.induct)
  case (1 parentModule absolutePath c)
  then show ?case by simp
next
  case (2 n parentModule absolutePath c)
  show ?case
  proof (cases "graph_get c absolutePath")
    case None
    with "2.prems" show ?thesis by simp
  next
    case (Some r)
    let ?c1 = "inverse_delete r (path (heap c parentModule)) c"
    show ?thesis
    proof (cases "inverseDependencies (heap ?c1 r) \<noteq> []")
      case True
      with "2.prems" Some show ?thesis by (simp add: Let_def)
    next
      case False
      from "2.prems" Some False obtain c3 where
        c3: "removeDependency_each n r (map snd (dependencies (heap ?c1 r)))
               (deleted_add (path (heap ?c1 r)) ?c1) = Some c3"
        and c': "c' = graph_delete (path (heap c3 r)) c3"
        by (auto simp add: Let_def split: option.splits)
      have "removeDependency_each (n + k) r (map snd (dependencies (heap ?c1 r)))
               (deleted_add (path (heap ?c1 r)) ?c1) = Some c3"
        using "2.IH" [OF Some refl False c3] .
      with Some False c' show ?thesis by (simp add: Let_def)
    qed
  qed
next
  case (3 n parentModule c)
  then show ?case by simp
next
  case (4 n parentModule d ds c)
  from "4.prems" obtain c1 where
    c1: "removeDependency n parentModule d c = Some c1"
    and rest: "removeDependency_each n parentModule ds c1 = Some c'"
    by (auto split: option.splits)
  from "4.IH"(1) [OF c1] "4.IH"(2) [OF c1 rest] show ?case by simp
qed

lemma removeDependency_mono_le:
  "removeDependency n parentModule a c = Some c' \<Longrightarrow> n \<le> m \<Longrightarrow>
     removeDependency m parentModule a c = Some c'"
  "removeDependency_each n parentModule ds c = Some c' \<Longrightarrow> n \<le> m \<Longrightarrow>
     removeDependency_each m parentModule ds c = Some c'"
  using removeDependency_mono(1) [of n parentModule a c c' "m - n"]
    removeDependency_mono(2) [of n parentModule ds c c' "m - n"]
  by simp_all

lemma cascade_inv_paths: "cascade_inv c X \<Longrightarrow> paths_agree c"
  by (simp add: cascade_inv_def)

lemma cascade_inv_member:
  "cascade_inv c X \<Longrightarrow> x \<in> X \<Longrightarrow>
     \<exists>q. graph_get c x = Some q \<and> inverseDependencies (heap c q) = []"
  by (simp add: cascade_inv_def)

lemma cascade_inv_recorded:
  "cascade_inv c X \<Longrightarrow> graph_get c k = Some r \<Longrightarrow> k \<notin> X \<Longrightarrow>
     d \<in> snd ` set (dependencies (heap c r)) \<Longrightarrow> graph_get c d = Some q \<Longrightarrow>
     k \<in> set (inverseDependencies (heap c q))"
  unfolding cascade_inv_def by blast

lemma cascade_invI:
  assumes "paths_agree c"
    and "\<And>x. x \<in> X \<Longrightarrow> \<exists>q. graph_get c x = Some q \<and> inverseDependencies (heap c q) = []"
    and "\<And>k r d q. graph_get c k = Some r \<Longrightarrow> k \<notin> X \<Longrightarrow>
           d \<in> snd ` set (dependencies (heap c r)) \<Longrightarrow> graph_get c d = Some q \<Longrightarrow>
           k \<in> set (inverseDependencies (heap c q))"
  shows "cascade_inv c X"
  unfolding cascade_inv_def using assms by blast



lemma removeDependency_each_terminates_step:
  assumes P: "\<And>c a. cascade_inv c X \<Longrightarrow> card (dom (graph_get c) - X) \<le> m \<Longrightarrow> a \<notin> X
      \<Longrightarrow> path (heap c parentModule) = pp
      \<Longrightarrow> \<exists>n c'. removeDependency n parentModule a c = Some c' \<and> cascade_inv c' X"
    and inv: "cascade_inv c X" and card: "card (dom (graph_get c) - X) \<le> m"
    and ds: "set ds \<inter> X = {}" and pp: "path (heap c parentModule) = pp"
  shows "\<exists>n c'. removeDependency_each n parentModule ds c = Some c' \<and> cascade_inv c' X"
  using inv card ds pp
proof (induction ds arbitrary: c)
  case Nil
  then show ?case by auto
next
  case (Cons d ds)
  from Cons.prems have "d \<notin> X" by simp
  from P [OF Cons.prems(1,2) this Cons.prems(4)] obtain n1 c1 where
    c1: "removeDependency n1 parentModule d c = Some c1" and inv1: "cascade_inv c1 X"
    by blast
  note r1 = removeDependency_removal(1) [OF c1]
  have "dom (graph_get c1) \<subseteq> dom (graph_get c)"
    using removal_get [OF r1] by auto
  then have "dom (graph_get c1) - X \<subseteq> dom (graph_get c) - X" by auto
  then have "card (dom (graph_get c1) - X) \<le> card (dom (graph_get c) - X)"
    by (intro card_mono) (simp_all add: finite_dom_map_of)
  with Cons.prems(2) have card1: "card (dom (graph_get c1) - X) \<le> m" by simp
  have pp1: "path (heap c1 parentModule) = pp"
    using removal_heap(1) [OF r1] Cons.prems(4) by simp
  from Cons.prems(3) have "set ds \<inter> X = {}" by auto
  from Cons.IH [OF inv1 card1 this pp1] obtain n2 c' where
    c': "removeDependency_each n2 parentModule ds c1 = Some c'" and inv': "cascade_inv c' X"
    by blast
  have "removeDependency (max n1 n2) parentModule d c = Some c1"
    by (rule removeDependency_mono_le(1) [OF c1]) simp
  moreover have "removeDependency_each (max n1 n2) parentModule ds c1 = Some c'"
    by (rule removeDependency_mono_le(2) [OF c']) simp
  ultimately have "removeDependency_each (max n1 n2) parentModule (d # ds) c = Some c'"
    by simp
  with inv' show ?case by blast
qed

lemma cascade_inv_inverse_delete:
  assumes inv: "cascade_inv c X" and get: "graph_get c a = Some r"
    and pp: "pp \<in> X \<or> (\<forall>r0. graph_get c pp = Some r0 \<longrightarrow>
               a \<notin> snd ` set (dependencies (heap c r0)))"
  shows "cascade_inv (inverse_delete r pp c) X"
proof (rule cascade_invI)
  let ?c1 = "inverse_delete r pp c"
  have g: "graph ?c1 = graph c" by (simp add: inverse_delete_def)
  have h: "\<And>x. path (heap ?c1 x) = path (heap c x)"
    "\<And>x. dependencies (heap ?c1 x) = dependencies (heap c x)"
    "\<And>x. inverseDependencies (heap ?c1 x) =
       (if x = r then set_delete pp (inverseDependencies (heap c x))
        else inverseDependencies (heap c x))"
    by (simp_all add: inverse_delete_def)
  note pa = cascade_inv_paths [OF inv]
  show "paths_agree ?c1" using pa by (simp add: paths_agree_def g h)
  show "\<exists>q. graph_get ?c1 x = Some q \<and> inverseDependencies (heap ?c1 q) = []" if "x \<in> X" for x
    using cascade_inv_member [OF inv that] by (auto simp add: g h set_delete_def)
  show "k \<in> set (inverseDependencies (heap ?c1 q))"
    if k: "graph_get ?c1 k = Some rk" and kX: "k \<notin> X"
      and d: "d \<in> snd ` set (dependencies (heap ?c1 rk))" and q: "graph_get ?c1 d = Some q"
    for k rk d q
  proof -
    have k': "graph_get c k = Some rk" and d': "d \<in> snd ` set (dependencies (heap c rk))"
      and q': "graph_get c d = Some q"
      using k d q by (simp_all add: g h)
    have rec: "k \<in> set (inverseDependencies (heap c q))"
      by (rule cascade_inv_recorded [OF inv k' kX d' q'])
    show ?thesis
    proof (cases "q = r")
      case False
      with rec show ?thesis by (simp add: h)
    next
      case True
      have "d = a"
        using paths_agree_get [OF pa q'] paths_agree_get [OF pa get] True by simp
      have "k \<noteq> pp"
      proof
        assume "k = pp"
        with kX pp have "\<forall>r0. graph_get c pp = Some r0 \<longrightarrow>
               a \<notin> snd ` set (dependencies (heap c r0))" by blast
        with k' \<open>k = pp\<close> have "a \<notin> snd ` set (dependencies (heap c rk))" by blast
        with d' \<open>d = a\<close> show False by simp
      qed
      with rec True show ?thesis by (simp add: h set_delete_def)
    qed
  qed
qed

lemma removeDependency_terminates_step:
  assumes Q: "\<And>c X parentModule ds. cascade_inv c X \<Longrightarrow> card (dom (graph_get c) - X) < m
      \<Longrightarrow> set ds \<inter> X = {} \<Longrightarrow> path (heap c parentModule) \<in> X
      \<Longrightarrow> \<exists>n c'. removeDependency_each n parentModule ds c = Some c' \<and> cascade_inv c' X"
    and inv: "cascade_inv c X" and card: "card (dom (graph_get c) - X) \<le> m"
    and aX: "a \<notin> X"
    and pp: "path (heap c parentModule) \<in> X \<or>
             (\<forall>r0. graph_get c (path (heap c parentModule)) = Some r0 \<longrightarrow>
               a \<notin> snd ` set (dependencies (heap c r0)))"
  shows "\<exists>n c'. removeDependency n parentModule a c = Some c' \<and> cascade_inv c' X"
proof (cases "graph_get c a")
  case None
  then have "removeDependency (Suc 0) parentModule a c = Some c" by simp
  with inv show ?thesis by blast
next
  case (Some r)
  let ?pp = "path (heap c parentModule)"
  let ?c1 = "inverse_delete r ?pp c"
  note pa = cascade_inv_paths [OF inv]
  have inv1: "cascade_inv ?c1 X"
    by (rule cascade_inv_inverse_delete [OF inv Some pp])
  have g1: "graph ?c1 = graph c" by (simp add: inverse_delete_def)
  have pr: "path (heap c r) = a" by (rule paths_agree_get [OF pa Some])
  have p1: "path (heap ?c1 r) = a" using pr by (simp add: inverse_delete_def)
  show ?thesis
  proof (cases "inverseDependencies (heap ?c1 r) \<noteq> []")
    case True
    with Some have "removeDependency (Suc 0) parentModule a c = Some ?c1"
      by (simp add: Let_def)
    with inv1 show ?thesis by blast
  next
    case False
    then have emp: "inverseDependencies (heap ?c1 r) = []" by simp
    let ?c2 = "deleted_add a ?c1"
    let ?ds = "map snd (dependencies (heap ?c1 r))"
    have g2: "graph ?c2 = graph c" and h2: "heap ?c2 = heap ?c1"
      by (simp_all add: deleted_add_def inverse_delete_def)
    have inv2: "cascade_inv ?c2 (insert a X)"
    proof (rule cascade_invI)
      show "paths_agree ?c2"
        using cascade_inv_paths [OF inv1] by (simp add: paths_agree_def g2 h2 g1)
      show "\<exists>q. graph_get ?c2 x = Some q \<and> inverseDependencies (heap ?c2 q) = []"
        if "x \<in> insert a X" for x
      proof (cases "x = a")
        case True
        with Some emp show ?thesis by (simp add: g2 h2)
      next
        case False
        with that have "x \<in> X" by simp
        from cascade_inv_member [OF inv1 this] show ?thesis by (simp add: g2 h2 g1)
      qed
      show "k \<in> set (inverseDependencies (heap ?c2 q))"
        if "graph_get ?c2 k = Some rk" "k \<notin> insert a X"
          "d \<in> snd ` set (dependencies (heap ?c2 rk))" "graph_get ?c2 d = Some q"
        for k rk d q
        using cascade_inv_recorded [OF inv1, of k rk d q] that by (simp add: g2 h2 g1)
    qed
    have "a \<in> dom (graph_get c) - X" using Some aX by auto
    then have "card (dom (graph_get c) - X - {a}) < card (dom (graph_get c) - X)"
      by (intro card_Diff1_less) (simp_all add: finite_dom_map_of)
    moreover have "dom (graph_get ?c2) - insert a X = dom (graph_get c) - X - {a}"
      by (auto simp add: g2)
    ultimately have card2: "card (dom (graph_get ?c2) - insert a X) < m"
      using card by simp
    have ds: "set ?ds \<inter> insert a X = {}"
    proof (rule ccontr)
      assume "set ?ds \<inter> insert a X \<noteq> {}"
      then obtain d where d: "d \<in> snd ` set (dependencies (heap ?c1 r))" and dX: "d \<in> insert a X"
        by auto
      from cascade_inv_member [OF inv2 dX] obtain q where
        q: "graph_get ?c1 d = Some q" and qe: "inverseDependencies (heap ?c1 q) = []"
        by (auto simp add: g2 h2 g1)
      have "graph_get ?c1 a = Some r" using Some by (simp add: g1)
      from cascade_inv_recorded [OF inv1 this aX d q] qe show False by simp
    qed
    have pp2: "path (heap ?c2 r) \<in> insert a X" by (simp add: h2 p1)
    from Q [OF inv2 card2 ds pp2] obtain n c3 where
      c3: "removeDependency_each n r ?ds ?c2 = Some c3" and inv3: "cascade_inv c3 (insert a X)"
      by blast
    note r3 = removeDependency_removal(2) [OF c3]
    have p3: "path (heap c3 r) = a"
      using removal_heap(1) [OF r3, of r] by (simp add: h2 p1)
    let ?c' = "graph_delete a c3"
    have run: "removeDependency (Suc n) parentModule a c = Some ?c'"
      using Some False c3 by (simp add: Let_def p1 p3)
    have g': "graph_get ?c' = (\<lambda>k. if k = a then None else graph_get c3 k)"
      and h': "heap ?c' = heap c3"
      by (auto simp add: graph_delete_def delete_conv')
    have inv': "cascade_inv ?c' X"
    proof (rule cascade_invI)
      show "paths_agree ?c'"
        using cascade_inv_paths [OF inv3]
        by (simp add: paths_agree_def graph_delete_def delete_as_filter list_all_iff)
      show "\<exists>q. graph_get ?c' x = Some q \<and> inverseDependencies (heap ?c' q) = []"
        if "x \<in> X" for x
      proof -
        from that aX have "x \<noteq> a" by auto
        moreover from that have "x \<in> insert a X" by simp
        from cascade_inv_member [OF inv3 this] obtain q where
          "graph_get c3 x = Some q" "inverseDependencies (heap c3 q) = []" by blast
        ultimately show ?thesis by (simp add: g' h')
      qed
      show "k \<in> set (inverseDependencies (heap ?c' q))"
        if k: "graph_get ?c' k = Some rk" and kX: "k \<notin> X"
          and d: "d \<in> snd ` set (dependencies (heap ?c' rk))" and q: "graph_get ?c' d = Some q"
        for k rk d q
      proof -
        from k have ka: "k \<noteq> a" and k3: "graph_get c3 k = Some rk"
          by (simp_all add: g' split: if_splits)
        from q have q3: "graph_get c3 d = Some q" by (simp add: g' split: if_splits)
        from ka kX have "k \<notin> insert a X" by simp
        from cascade_inv_recorded [OF inv3 k3 this _ q3] d show ?thesis by (simp add: h')
      qed
    qed
    from run inv' show ?thesis by blast
  qed
qed

lemma removeDependency_terminates_aux:
  "(\<forall>c X parentModule a. cascade_inv c X \<longrightarrow> card (dom (graph_get c) - X) \<le> m \<longrightarrow> a \<notin> X
      \<longrightarrow> (path (heap c parentModule) \<in> X \<or>
             (\<forall>r0. graph_get c (path (heap c parentModule)) = Some r0 \<longrightarrow>
               a \<notin> snd ` set (dependencies (heap c r0))))
      \<longrightarrow> (\<exists>n c'. removeDependency n parentModule a c = Some c' \<and> cascade_inv c' X))
   \<and> (\<forall>c X parentModule ds. cascade_inv c X \<longrightarrow> card (dom (graph_get c) - X) \<le> m
      \<longrightarrow> set ds \<inter> X = {} \<longrightarrow> path (heap c parentModule) \<in> X
      \<longrightarrow> (\<exists>n c'. removeDependency_each n parentModule ds c = Some c' \<and> cascade_inv c' X))"
proof (induction m rule: less_induct)
  case (less m)
  have Q: "\<exists>n c'. removeDependency_each n parentModule ds c = Some c' \<and> cascade_inv c' X"
    if "cascade_inv c X" "card (dom (graph_get c) - X) < m" "set ds \<inter> X = {}"
      "path (heap c parentModule) \<in> X" for c X parentModule ds
    using less.IH [OF that(2)] that(1,3,4) by blast
  have P: "\<exists>n c'. removeDependency n parentModule a c = Some c' \<and> cascade_inv c' X"
    if "cascade_inv c X" "card (dom (graph_get c) - X) \<le> m" "a \<notin> X"
      "path (heap c parentModule) \<in> X \<or>
             (\<forall>r0. graph_get c (path (heap c parentModule)) = Some r0 \<longrightarrow>
               a \<notin> snd ` set (dependencies (heap c r0)))" for c X parentModule a
    by (rule removeDependency_terminates_step [OF Q that]) assumption+
  have Q': "\<exists>n c'. removeDependency_each n parentModule ds c = Some c' \<and> cascade_inv c' X"
    if "cascade_inv c X" "card (dom (graph_get c) - X) \<le> m" "set ds \<inter> X = {}"
      "path (heap c parentModule) \<in> X" for c X parentModule ds
  proof (rule removeDependency_each_terminates_step [OF _ that(1,2,3) refl])
    fix c' a
    assume "cascade_inv c' X" "card (dom (graph_get c') - X) \<le> m" "a \<notin> X"
      "path (heap c' parentModule) = path (heap c parentModule)"
    with that(4) show "\<exists>n c''. removeDependency n parentModule a c' = Some c'' \<and> cascade_inv c'' X"
      using P [of c' X a parentModule] by simp
  qed
  from P Q' show ?case by blast
qed

lemma edges_recorded_cascade_inv:
  assumes "paths_agree c" and "edges_recorded c"
  shows "cascade_inv c {}"
proof (rule cascade_invI [OF assms(1)])
  show "\<exists>q. graph_get c x = Some q \<and> inverseDependencies (heap c q) = []" if "x \<in> {}" for x
    using that by simp
  show "k \<in> set (inverseDependencies (heap c q))"
    if k: "graph_get c k = Some r" and d: "d \<in> snd ` set (dependencies (heap c r))"
      and q: "graph_get c d = Some q" for k r d q
  proof -
    from k have kr: "(k, r) \<in> set (graph_dependencies (graph c))" by (rule map_of_SomeD)
    from assms(2) have all: "\<forall>e \<in> set (graph_dependencies (graph c)).
        \<forall>d \<in> set (map snd (dependencies (heap c (snd e)))).
          case graph_get c d of None \<Rightarrow> True
          | Some q \<Rightarrow> fst e \<in> set (inverseDependencies (heap c q))"
      unfolding edges_recorded_def list_all_iff .
    from bspec [OF all kr] have "\<forall>d \<in> set (map snd (dependencies (heap c r))).
          case graph_get c d of None \<Rightarrow> True
          | Some q \<Rightarrow> k \<in> set (inverseDependencies (heap c q))"
      by (simp cong: option.case_cong)
    moreover from d have "d \<in> set (map snd (dependencies (heap c r)))" by simp
    ultimately have "case graph_get c d of None \<Rightarrow> True
        | Some q \<Rightarrow> k \<in> set (inverseDependencies (heap c q))"
      by (rule bspec)
    with q show ?thesis by simp
  qed
qed

lemma removeDependency_terminates:
  assumes "paths_agree c" and "edges_recorded c"
    and "\<forall>r0. graph_get c (path (heap c parentModule)) = Some r0 \<longrightarrow>
            a \<notin> snd ` set (dependencies (heap c r0))"
  shows "\<exists>n c'. removeDependency n parentModule a c = Some c'"
proof -
  have "\<exists>n c'. removeDependency n parentModule a c = Some c' \<and> cascade_inv c' {}"
    using removeDependency_terminates_aux [of "card (dom (graph_get c) - {})"]
      edges_recorded_cascade_inv [OF assms(1,2)] assms(3)
    by blast
  then show ?thesis by blast
qed

lemma removal_survives:
  assumes r: "removal pp A c c'" and pa: "paths_agree c"
    and get: "graph_get c k = Some q"
    and y: "y \<in> set (inverseDependencies (heap c q))" "y \<noteq> pp" "y \<notin> set (deleted (delta c'))"
  shows "graph_get c' k = Some q \<and> y \<in> set (inverseDependencies (heap c' q))"
proof -
  have yin: "y \<in> set (inverseDependencies (heap c' q))"
    using removal_heap(5) [OF r, of q] y by auto
  have "graph_get c' k \<noteq> None"
  proof
    assume "graph_get c' k = None"
    from removal_left(1) [OF r pa get this] yin show False by simp
  qed
  then obtain q' where q': "graph_get c' k = Some q'" by auto
  from removal_get [OF r q'] get have "q' = q" by simp
  with q' yin show ?thesis by simp
qed

lemma removal_keeps:
  assumes r: "removal pp A c c'" and pa: "paths_agree c"
    and get: "graph_get c e = Some q" and e: "e \<notin> A" "e \<notin> targets c"
  shows "graph_get c' e = Some q"
proof -
  have "graph_get c' e \<noteq> None"
  proof
    assume "graph_get c' e = None"
    from removal_left(3) [OF r pa get this] e show False by simp
  qed
  then obtain q' where q': "graph_get c' e = Some q'" by auto
  from removal_get [OF r q'] get have "q' = q" by simp
  with q' show ?thesis by simp
qed

section \<open>Counters and progress calls during a pass\<close>


lemma calls_of_append:
  "calls_of k (pr @ [(k', v)]) = calls_of k pr @ (if k' = k then [v] else [])"
  by (simp add: calls_of_def)

lemma calls_of_set: "e \<in> set (calls_of k pr) \<longleftrightarrow> (k, e) \<in> set pr"
  by (force simp add: calls_of_def)

lemma pending_of_append:
  "pending_of k (ts @ [u]) =
     pending_of k ts + (if task_root u = k \<and> task_status u \<noteq> Done then 1 else 0)"
  by (simp add: pending_of_def)

lemma pending_of_update:
  "t < length ts \<Longrightarrow> task_status (ts ! t) \<noteq> Done \<Longrightarrow>
     pending_of k (ts[t := (ts ! t)\<lparr>task_status := s\<rparr>]) +
       (if task_root (ts ! t) = k \<and> s = Done then 1 else 0) = pending_of k ts"
proof (induction ts arbitrary: t)
  case Nil
  then show ?case by simp
next
  case (Cons u ts)
  show ?case
  proof (cases t)
    case 0
    with Cons.prems show ?thesis by (simp add: pending_of_def)
  next
    case (Suc t')
    with Cons.prems have "t' < length ts" "task_status (ts ! t') \<noteq> Done" by simp_all
    from Cons.IH [OF this] have
      "pending_of k (ts[t' := (ts ! t')\<lparr>task_status := s\<rparr>]) +
         (if task_root (ts ! t') = k \<and> s = Done then 1 else 0) = pending_of k ts" .
    moreover have "pending_of k ((u # ts)[t := ((u # ts) ! t)\<lparr>task_status := s\<rparr>]) =
        (if task_root u = k \<and> task_status u \<noteq> Done then 1 else 0) +
        pending_of k (ts[t' := (ts ! t')\<lparr>task_status := s\<rparr>])"
      using Suc by (simp add: pending_of_def)
    moreover have "pending_of k (u # ts) =
        (if task_root u = k \<and> task_status u \<noteq> Done then 1 else 0) + pending_of k ts"
      by (simp add: pending_of_def)
    moreover have "(u # ts) ! t = ts ! t'" using Suc by simp
    ultimately show ?thesis by simp
  qed
qed

lemma progress_ok_counter:
  "progress_ok ts cs pr \<Longrightarrow> fst (cs k) + pending_of k ts = snd (cs k)"
  by (simp add: progress_ok_def)

text \<open>A counter of the traversal \<open>k\<close> changes, and the new values are reported if there
  is a callback.\<close>

lemma progress_ok_change:
  assumes ok: "progress_ok ts cs pr"
    and len: "length ts \<le> length ts'"
    and roots: "\<forall>u \<in> set ts'. task_root u < length ts'"
    and k: "k < length ts'"
    and up: "fst (cs k) \<le> np" "snd (cs k) \<le> tot"
    and pend: "np + pending_of k ts' = tot"
    and other: "\<And>j. j \<noteq> k \<Longrightarrow> pending_of j ts' = pending_of j ts"
    and pr': "pr' = pr @ [(k, np, tot)] \<or> (pr' = pr \<and> pr = [])"
  shows "progress_ok ts' (cs(k := (np, tot))) pr'"
proof -
  have le: "np \<le> tot" using pend by simp
  have ids: "\<forall>e \<in> set pr'. fst e < length ts'"
  proof
    fix e assume e: "e \<in> set pr'"
    from ok have "\<forall>e \<in> set pr. fst e < length ts" by (simp add: progress_ok_def)
    with e pr' len k show "fst e < length ts'" by fastforce
  qed
  have zero: "\<forall>j \<ge> length ts'. (cs(k := (np, tot))) j = (0, 0)"
    using ok len k by (simp add: progress_ok_def)
  have cnt: "\<forall>j. fst ((cs(k := (np, tot))) j) + pending_of j ts' = snd ((cs(k := (np, tot))) j)"
    using ok pend other by (simp add: progress_ok_def)
  have calls: "sorted (map fst (calls_of j pr')) \<and> sorted (map snd (calls_of j pr'))
            \<and> (\<forall>e \<in> set (calls_of j pr').
                  fst e \<le> snd e \<and> fst e \<le> fst ((cs(k := (np, tot))) j)
                  \<and> snd e \<le> snd ((cs(k := (np, tot))) j))
            \<and> (calls_of j pr' = [] \<or> last (calls_of j pr') = (cs(k := (np, tot))) j)" for j
  proof -
    from ok have old: "sorted (map fst (calls_of j pr))" "sorted (map snd (calls_of j pr))"
      "\<forall>e \<in> set (calls_of j pr). fst e \<le> snd e \<and> fst e \<le> fst (cs j) \<and> snd e \<le> snd (cs j)"
      "calls_of j pr = [] \<or> last (calls_of j pr) = cs j"
      by (simp_all add: progress_ok_def)
    show ?thesis
    proof (cases "j = k")
      case False
      with old pr' show ?thesis by (auto simp add: calls_of_append)
    next
      case True
      from pr' show ?thesis
      proof
        assume "pr' = pr @ [(k, np, tot)]"
        with old True up le show ?thesis
          by (auto simp add: calls_of_append sorted_append)
      next
        assume "pr' = pr \<and> pr = []"
        then show ?thesis by (simp add: calls_of_def)
      qed
    qed
  qed
  show ?thesis
    unfolding progress_ok_def using roots ids zero cnt calls by blast
qed




lemma pending_of_fresh:
  "\<forall>u \<in> set ts. task_root u < length ts \<Longrightarrow> length ts \<le> k \<Longrightarrow> pending_of k ts = 0"
  by (auto simp add: pending_of_def filter_empty_conv)


lemma progress_ok_tasks:
  assumes ok: "progress_ok ts cs pr" and len: "length ts' = length ts"
    and roots: "\<forall>u \<in> set ts'. task_root u < length ts'"
    and pend: "\<And>k. pending_of k ts' = pending_of k ts"
  shows "progress_ok ts' cs pr"
  using ok roots unfolding progress_ok_def len pend by blast


lemma roots_update:
  assumes "\<forall>u \<in> set ts. task_root u < length ts" and "t < length ts"
  shows "\<forall>u \<in> set (ts[t := (ts ! t)\<lparr>task_status := s\<rparr>]). task_root u < length ts"
proof
  fix u assume u: "u \<in> set (ts[t := (ts ! t)\<lparr>task_status := s\<rparr>])"
  have "set (ts[t := (ts ! t)\<lparr>task_status := s\<rparr>]) \<subseteq> insert ((ts ! t)\<lparr>task_status := s\<rparr>) (set ts)"
    by (rule set_update_subset_insert)
  with u have "u = (ts ! t)\<lparr>task_status := s\<rparr> \<or> u \<in> set ts" by auto
  moreover have "ts ! t \<in> set ts" using assms(2) by simp
  ultimately show "task_root u < length ts" using assms(1) by auto
qed


lemma parents_ok_append:
  assumes "parents_ok ts"
    and "\<And>p. task_parent u = Some p \<Longrightarrow> p < length ts \<and> task_status (ts ! p) \<noteq> Done"
  shows "parents_ok (ts @ [u])"
  unfolding parents_ok_def
proof (intro allI impI)
  fix v p
  assume v: "v < length (ts @ [u])" and p: "task_parent ((ts @ [u]) ! v) = Some p"
  show "p < v \<and> (task_status ((ts @ [u]) ! p) = Done \<longrightarrow> task_status ((ts @ [u]) ! v) = Done)"
  proof (cases "v < length ts")
    case True
    with p have "task_parent (ts ! v) = Some p" by (simp add: nth_append)
    with assms(1) True have "p < v \<and> (task_status (ts ! p) = Done \<longrightarrow> task_status (ts ! v) = Done)"
      by (simp add: parents_ok_def)
    with True show ?thesis by (simp add: nth_append)
  next
    case False
    with v have "v = length ts" by simp
    with p assms(2) [of p] show ?thesis by (simp add: nth_append)
  qed
qed


lemma parents_ok_update:
  assumes ok: "parents_ok ts" and t: "t < length ts"
    and s: "s = Done \<longrightarrow> (\<forall>u < length ts. task_parent (ts ! u) = Some t \<longrightarrow> task_status (ts ! u) = Done)"
    and was: "task_status (ts ! t) \<noteq> Done"
  shows "parents_ok (ts[t := (ts ! t)\<lparr>task_status := s\<rparr>])"
  unfolding parents_ok_def
proof (intro allI impI)
  let ?ts = "ts[t := (ts ! t)\<lparr>task_status := s\<rparr>]"
  fix v p
  assume v: "v < length ?ts" and p: "task_parent (?ts ! v) = Some p"
  have par: "task_parent (?ts ! v) = task_parent (ts ! v)"
    using v by (cases "v = t") simp_all
  from ok v p par have old: "p < v" "task_status (ts ! p) = Done \<longrightarrow> task_status (ts ! v) = Done"
    by (simp_all add: parents_ok_def)
  have "task_status (?ts ! v) = Done" if d: "task_status (?ts ! p) = Done"
  proof (cases "p = t")
    case True
    with d t have "s = Done" by simp
    with s v p par True have "task_status (ts ! v) = Done" by simp
    moreover from old True have "v \<noteq> t" by simp
    ultimately show ?thesis by simp
  next
    case False
    with d have "task_status (ts ! p) = Done" by simp
    with old was have "task_status (ts ! v) = Done" "v \<noteq> t" by auto
    then show ?thesis by simp
  qed
  with old show "p < v \<and> (task_status (?ts ! p) = Done \<longrightarrow> task_status (?ts ! v) = Done)"
    by blast
qed


lemma parents_ok_all_done:
  assumes ok: "parents_ok ts"
    and roots: "\<forall>u \<in> set ts. task_parent u = None \<longrightarrow> task_status u = Done"
  shows "u < length ts \<Longrightarrow> task_status (ts ! u) = Done"
proof (induction u rule: less_induct)
  case (less u)
  show ?case
  proof (cases "task_parent (ts ! u)")
    case None
    with roots less.prems show ?thesis by simp
  next
    case (Some p)
    with ok less.prems have p: "p < u" "task_status (ts ! p) = Done \<longrightarrow> task_status (ts ! u) = Done"
      by (simp_all add: parents_ok_def)
    from less.IH [OF p(1)] p(1) less.prems have "task_status (ts ! p) = Done" by simp
    with p(2) show ?thesis by simp
  qed
qed


lemma pending_of_all_done:
  "\<forall>u \<in> set ts. task_status u = Done \<Longrightarrow> pending_of k ts = 0"
  by (auto simp add: pending_of_def filter_empty_conv)


lemma pass_inv_frame:
  "tasks c' = tasks c \<Longrightarrow> counters c' = counters c \<Longrightarrow> progress c' = progress c \<Longrightarrow>
     pass_inv options c' = pass_inv options c"
  by (simp add: pass_inv_def)

lemma report_fields:
  "tasks (report options k c) = tasks c" "counters (report options k c) = counters c"
  "heap (report options k c) = heap c" "graph (report options k c) = graph c"
  "delta (report options k c) = delta c" "nextRef (report options k c) = nextRef c"
  "progress (report options k c) =
     (if onProgress options then progress c @ [(k, counters c k)] else progress c)"
  by (simp_all add: report_def)

text \<open>Starting the traversal of one more path.\<close>

lemma pass_inv_single_file:
  assumes "pass_inv options c"
  shows "pass_inv options (traverseDependenciesForSingleFile options r c)"
proof -
  let ?k = "length (tasks c)"
  let ?u = "\<lparr>task_module = r, task_previous = dependencies (heap c r), task_root = ?k,
             task_parent = None, task_status = AwaitTransform\<rparr>"
  let ?c' = "traverseDependenciesForSingleFile options r c"
  from assms have ok: "progress_ok (tasks c) (counters c) (progress c)"
    and par: "parents_ok (tasks c)" and cb: "onProgress options \<or> progress c = []"
    by (simp_all add: pass_inv_def)
  have t': "tasks ?c' = tasks c @ [?u]" and c': "counters ?c' = (counters c)(?k := (0, 1))"
    and p': "progress ?c' = (if onProgress options then progress c @ [(?k, 0, 1)] else progress c)"
    by (simp_all add: traverseDependenciesForSingleFile_def Let_def processModule_start_def
        report_def)
  have roots: "\<forall>u \<in> set (tasks c). task_root u < length (tasks c)"
    and zero: "counters c ?k = (0, 0)"
    using ok by (simp_all add: progress_ok_def)
  have fresh: "pending_of ?k (tasks c) = 0"
    by (rule pending_of_fresh [OF roots]) simp
  have "progress_ok (tasks ?c') (counters ?c') (progress ?c')"
    unfolding t' c'
  proof (rule progress_ok_change [OF ok])
    show "\<forall>u \<in> set (tasks c @ [?u]). task_root u < length (tasks c @ [?u])"
      using roots by auto
    show "0 + pending_of ?k (tasks c @ [?u]) = 1"
      by (simp add: pending_of_append fresh)
    show "pending_of j (tasks c @ [?u]) = pending_of j (tasks c)" if "j \<noteq> ?k" for j
      using that by (simp add: pending_of_append)
    show "progress ?c' = progress c @ [(?k, 0, 1)] \<or> (progress ?c' = progress c \<and> progress c = [])"
      using cb by (auto simp add: p')
  qed (simp_all add: zero)
  moreover have "parents_ok (tasks ?c')"
    unfolding t' by (rule parents_ok_append [OF par]) simp
  moreover have "onProgress options \<or> progress ?c' = []"
    using cb by (auto simp add: p')
  ultimately show ?thesis by (simp add: pass_inv_def)
qed

text \<open>A dependency is added by the task \<open>t\<close>, which has not returned.\<close>

lemma pass_inv_addDependency:
  assumes inv: "pass_inv options c" and t: "t < length (tasks c)"
    and st: "task_status (tasks c ! t) \<noteq> Done"
  shows "pass_inv options (addDependency options t parentModule p c)
    \<and> length (tasks c) \<le> length (tasks (addDependency options t parentModule p c))
    \<and> tasks (addDependency options t parentModule p c) ! t = tasks c ! t"
proof (cases "graph_get c p")
  case (Some existingModule)
  then have "addDependency options t parentModule p c =
      inverse_add existingModule (path (heap c parentModule)) c"
    by (simp add: addDependency_def)
  with inv show ?thesis
    by (simp add: inverse_add_def pass_inv_def)
next
  case None
  let ?k = "task_root (tasks c ! t)"
  let ?c' = "addDependency options t parentModule p c"
  from inv have ok: "progress_ok (tasks c) (counters c) (progress c)"
    and par: "parents_ok (tasks c)" and cb: "onProgress options \<or> progress c = []"
    by (simp_all add: pass_inv_def)
  have roots: "\<forall>u \<in> set (tasks c). task_root u < length (tasks c)"
    using ok by (simp add: progress_ok_def)
  have k: "?k < length (tasks c)" using roots t by simp
  obtain u where t': "tasks ?c' = tasks c @ [u]"
    and u: "task_root u = ?k" "task_parent u = Some t" "task_status u = AwaitTransform"
    using None
    by (simp add: addDependency_def createModule_def Let_def inverse_add_def onDependencyAdd_def
        report_def processModule_start_def)
  have c': "counters ?c' = (counters c)(?k := (fst (counters c ?k), Suc (snd (counters c ?k))))"
    and p': "progress ?c' =
      (if onProgress options
       then progress c @ [(?k, fst (counters c ?k), Suc (snd (counters c ?k)))]
       else progress c)"
    using None
    by (simp_all add: addDependency_def createModule_def Let_def inverse_add_def
        onDependencyAdd_def report_def processModule_start_def)
  have "progress_ok (tasks ?c') (counters ?c') (progress ?c')"
    unfolding t' c'
  proof (rule progress_ok_change [OF ok])
    show "\<forall>v \<in> set (tasks c @ [u]). task_root v < length (tasks c @ [u])"
      using roots k u by auto
    show "fst (counters c ?k) + pending_of ?k (tasks c @ [u]) = Suc (snd (counters c ?k))"
      using progress_ok_counter [OF ok, of ?k] u by (simp add: pending_of_append)
    show "pending_of j (tasks c @ [u]) = pending_of j (tasks c)" if "j \<noteq> ?k" for j
      using that u by (simp add: pending_of_append)
    show "progress ?c' = progress c @ [(?k, fst (counters c ?k), Suc (snd (counters c ?k)))]
        \<or> (progress ?c' = progress c \<and> progress c = [])"
      using cb by (auto simp add: p')
    show "?k < length (tasks c @ [u])" using k by simp
  qed simp_all
  moreover have "parents_ok (tasks ?c')"
    unfolding t' by (rule parents_ok_append [OF par]) (use u t st in auto)
  moreover have "onProgress options \<or> progress ?c' = []"
    using cb by (auto simp add: p')
  ultimately show ?thesis using t by (simp add: pass_inv_def t' nth_append)
qed

lemma pass_inv_add_current:
  assumes "pass_inv options c" and "t < length (tasks c)"
    and "task_status (tasks c ! t) \<noteq> Done"
  shows "pass_inv options (add_current options t r previous entries c)
    \<and> length (tasks c) \<le> length (tasks (add_current options t r previous entries c))
    \<and> tasks (add_current options t r previous entries c) ! t = tasks c ! t"
  using assms
proof (induction entries arbitrary: c)
  case Nil
  then show ?case by simp
next
  case (Cons e entries)
  obtain rel abs where e: "e = (rel, abs)" by (cases e)
  show ?case
  proof (cases "map_has previous rel")
    case True
    with Cons e show ?thesis by simp
  next
    case False
    let ?c1 = "addDependency options t r abs c"
    from pass_inv_addDependency [OF Cons.prems, of r abs] have
      1: "pass_inv options ?c1" "length (tasks c) \<le> length (tasks ?c1)"
        "tasks ?c1 ! t = tasks c ! t"
      by simp_all
    from 1 Cons.prems have "t < length (tasks ?c1)" "task_status (tasks ?c1 ! t) \<noteq> Done"
      by simp_all
    from Cons.IH [OF 1(1) this] 1 False e show ?thesis by simp
  qed
qed

lemma remove_previous_frame:
  "remove_previous n r current previous c = Some c' \<Longrightarrow>
     tasks c' = tasks c \<and> counters c' = counters c \<and> progress c' = progress c"
proof (induction previous arbitrary: c)
  case Nil
  then show ?case by simp
next
  case (Cons e previous)
  obtain rel abs where e: "e = (rel, abs)" by (cases e)
  show ?case
  proof (cases "map_has current rel")
    case True
    with Cons e show ?thesis by simp
  next
    case False
    with Cons.prems e obtain c1 where
      c1: "removeDependency n r abs c = Some c1"
      and rest: "remove_previous n r current previous c1 = Some c'"
      by (auto split: option.splits)
    from removal_frame(1,2,3) [OF removeDependency_removal(1) [OF c1]] Cons.IH [OF rest]
    show ?thesis by simp
  qed
qed


lemma pass_inv_status:
  assumes inv: "pass_inv options c" and t: "t < length (tasks c)"
    and st: "task_status (tasks c ! t) \<noteq> Done"
  shows "pass_inv options
           (c\<lparr>tasks := (tasks c)[t := (tasks c ! t)\<lparr>task_status := AwaitChildren\<rparr>]\<rparr>)"
proof -
  let ?ts = "(tasks c)[t := (tasks c ! t)\<lparr>task_status := AwaitChildren\<rparr>]"
  from inv have ok: "progress_ok (tasks c) (counters c) (progress c)"
    and par: "parents_ok (tasks c)" and cb: "onProgress options \<or> progress c = []"
    by (simp_all add: pass_inv_def)
  have roots: "\<forall>u \<in> set (tasks c). task_root u < length (tasks c)"
    using ok by (simp add: progress_ok_def)
  have "progress_ok ?ts (counters c) (progress c)"
  proof (rule progress_ok_tasks [OF ok])
    show "\<forall>u \<in> set ?ts. task_root u < length ?ts"
      using roots_update [OF roots t] by simp
    show "pending_of k ?ts = pending_of k (tasks c)" for k
      using pending_of_update [OF t st, of k AwaitChildren] by simp
  qed simp
  moreover have "parents_ok ?ts"
    by (rule parents_ok_update [OF par t _ st]) simp
  ultimately show ?thesis using cb by (simp add: pass_inv_def)
qed

lemma processModule_resumeE:
  assumes run: "processModule_resume n options t c = Inr c'"
  obtains result current c2 where
    "transform options (path (heap c (task_module (tasks c ! t)))) = Some result"
    "resolveDependencies (path (heap c (task_module (tasks c ! t))))
       (tr_dependencies result) options = Some current"
    "remove_previous n (task_module (tasks c ! t)) current (task_previous (tasks c ! t))
       (c\<lparr>heap := (heap c)(task_module (tasks c ! t) := (heap c (task_module (tasks c ! t)))
             \<lparr>dependencies := set_all current [],
              module_output := tr_output result\<rparr>)\<rparr>) = Some c2"
    "c' = (add_current options t (task_module (tasks c ! t)) (task_previous (tasks c ! t))
             current c2)
          \<lparr>tasks := (tasks (add_current options t (task_module (tasks c ! t))
                              (task_previous (tasks c ! t)) current c2))
             [t := (tasks (add_current options t (task_module (tasks c ! t))
                             (task_previous (tasks c ! t)) current c2) ! t)
                    \<lparr>task_status := AwaitChildren\<rparr>]\<rparr>"
proof (cases "transform options (path (heap c (task_module (tasks c ! t))))")
  case None
  with run show ?thesis by (simp add: processModule_resume_def)
next
  case (Some result)
  note tr = this
  show ?thesis
  proof (cases "resolveDependencies (path (heap c (task_module (tasks c ! t))))
       (tr_dependencies result) options")
    case None
    with run tr show ?thesis by (simp add: processModule_resume_def)
  next
    case (Some current)
    note rs = this
    show ?thesis
    proof (cases "remove_previous n (task_module (tasks c ! t)) current
       (task_previous (tasks c ! t))
       (c\<lparr>heap := (heap c)(task_module (tasks c ! t) := (heap c (task_module (tasks c ! t)))
             \<lparr>dependencies := set_all current [],
              module_output := tr_output result\<rparr>)\<rparr>)")
      case None
      with run tr rs show ?thesis by (simp add: processModule_resume_def Let_def)
    next
      case (Some c2)
      with run tr rs have "c' = (add_current options t (task_module (tasks c ! t))
             (task_previous (tasks c ! t)) current c2)
          \<lparr>tasks := (tasks (add_current options t (task_module (tasks c ! t))
                              (task_previous (tasks c ! t)) current c2))
             [t := (tasks (add_current options t (task_module (tasks c ! t))
                             (task_previous (tasks c ! t)) current c2) ! t)
                    \<lparr>task_status := AwaitChildren\<rparr>]\<rparr>"
        by (simp add: processModule_resume_def Let_def)
      with tr rs Some show ?thesis by (rule that)
    qed
  qed
qed

lemma pass_inv_resume:
  assumes inv: "pass_inv options c" and t: "t < length (tasks c)"
    and st: "task_status (tasks c ! t) = AwaitTransform"
    and run: "processModule_resume n options t c = Inr c'"
  shows "pass_inv options c'"
proof -
  let ?r = "task_module (tasks c ! t)"
  let ?prev = "task_previous (tasks c ! t)"
  from run obtain result :: TransformResult and current c2 where
    c2: "remove_previous n ?r current ?prev
           (c\<lparr>heap := (heap c)(?r := (heap c ?r)
                 \<lparr>dependencies := set_all current [],
                  module_output := tr_output result\<rparr>)\<rparr>) = Some c2"
    and c': "c' = (add_current options t ?r ?prev current c2)
               \<lparr>tasks := (tasks (add_current options t ?r ?prev current c2))
                  [t := (tasks (add_current options t ?r ?prev current c2) ! t)
                         \<lparr>task_status := AwaitChildren\<rparr>]\<rparr>"
    by (elim processModule_resumeE) (rule that; assumption)
  from remove_previous_frame [OF c2] have fr: "tasks c2 = tasks c" "counters c2 = counters c"
    "progress c2 = progress c"
    by simp_all
  have inv2: "pass_inv options c2"
    using inv by (simp add: pass_inv_def fr)
  have t2: "t < length (tasks c2)" "task_status (tasks c2 ! t) \<noteq> Done"
    using t st by (simp_all add: fr)
  let ?c3 = "add_current options t ?r ?prev current c2"
  from pass_inv_add_current [OF inv2 t2, of ?r ?prev current] have
    3: "pass_inv options ?c3" "length (tasks c2) \<le> length (tasks ?c3)"
      "tasks ?c3 ! t = tasks c2 ! t"
    by simp_all
  have "t < length (tasks ?c3)" "task_status (tasks ?c3 ! t) \<noteq> Done"
    using 3 t2 by simp_all
  from pass_inv_status [OF 3(1) this] show ?thesis by (simp add: c')
qed

lemma children_done_nth:
  "children_done t c \<Longrightarrow> u < length (tasks c) \<Longrightarrow> task_parent (tasks c ! u) = Some t \<Longrightarrow>
     task_status (tasks c ! u) = Done"
  by (simp add: children_done_def list_all_length)

lemma pass_inv_finish:
  assumes inv: "pass_inv options c" and t: "t < length (tasks c)"
    and st: "task_status (tasks c ! t) = AwaitChildren" and ch: "children_done t c"
  shows "pass_inv options (finish options t c)"
proof -
  let ?k = "task_root (tasks c ! t)"
  let ?ts = "(tasks c)[t := (tasks c ! t)\<lparr>task_status := Done\<rparr>]"
  let ?np = "Suc (fst (counters c ?k))" and ?tot = "snd (counters c ?k)"
  let ?c' = "finish options t c"
  from inv have ok: "progress_ok (tasks c) (counters c) (progress c)"
    and par: "parents_ok (tasks c)" and cb: "onProgress options \<or> progress c = []"
    by (simp_all add: pass_inv_def)
  have roots: "\<forall>u \<in> set (tasks c). task_root u < length (tasks c)"
    using ok by (simp add: progress_ok_def)
  have k: "?k < length (tasks c)" using roots t by simp
  have nd: "task_status (tasks c ! t) \<noteq> Done" using st by simp
  have t': "tasks ?c' = ?ts" and c': "counters ?c' = (counters c)(?k := (?np, ?tot))"
    and p': "progress ?c' =
      (if onProgress options then progress c @ [(?k, ?np, ?tot)] else progress c)"
    by (simp_all add: finish_def Let_def onDependencyAdded_def report_def)
  have "progress_ok (tasks ?c') (counters ?c') (progress ?c')"
    unfolding t' c'
  proof (rule progress_ok_change [OF ok])
    show "\<forall>u \<in> set ?ts. task_root u < length ?ts"
      using roots_update [OF roots t] by simp
    show "?np + pending_of ?k ?ts = ?tot"
      using pending_of_update [OF t nd, of ?k Done] progress_ok_counter [OF ok, of ?k] by simp
    show "pending_of j ?ts = pending_of j (tasks c)" if "j \<noteq> ?k" for j
      using pending_of_update [OF t nd, of j Done] that by simp
    show "progress ?c' = progress c @ [(?k, ?np, ?tot)]
        \<or> (progress ?c' = progress c \<and> progress c = [])"
      using cb by (auto simp add: p')
    show "?k < length ?ts" using k by simp
  qed simp_all
  moreover have "parents_ok ?ts"
    by (rule parents_ok_update [OF par t _ nd]) (use ch children_done_nth in blast)
  moreover have "onProgress options \<or> progress ?c' = []"
    using cb by (auto simp add: p')
  ultimately show ?thesis by (simp add: pass_inv_def t')
qed

lemma pass_inv_step:
  "pass_inv options c \<Longrightarrow> step n options e c = Inr c' \<Longrightarrow> pass_inv options c'"
proof (cases e)
  case (TransformDone t)
  assume "pass_inv options c" "step n options e c = Inr c'"
  with TransformDone show ?thesis
    by (auto intro: pass_inv_resume split: if_splits)
next
  case (Finish t)
  assume "pass_inv options c" "step n options e c = Inr c'"
  with Finish show ?thesis
    by (auto intro: pass_inv_finish split: if_splits)
qed

lemma pass_inv_run:
  "pass_inv options c \<Longrightarrow> run n options es c = Inr c' \<Longrightarrow> pass_inv options c'"
proof (induction es arbitrary: c)
  case Nil
  then show ?case by simp
next
  case (Cons e es)
  from Cons.prems(2) obtain c1 where
    1: "step n options e c = Inr c1" and 2: "run n options es c1 = Inr c'"
    by (auto split: sum.splits)
  from Cons.IH [OF pass_inv_step [OF Cons.prems(1) 1] 2] show ?case .
qed

lemma pass_inv_start_paths:
  "pass_inv options c \<Longrightarrow> pass_inv options (start_paths options ps c)"
proof (induction ps arbitrary: c)
  case Nil
  then show ?case by simp
next
  case (Cons p ps)
  show ?case
  proof (cases "graph_get c p")
    case None
    with Cons show ?thesis by simp
  next
    case (Some r)
    let ?c1 = "c\<lparr>delta := (delta c)\<lparr>modified :=
                     AList.update (path (heap c r)) r (modified (delta c))\<rparr>\<rparr>"
    have "pass_inv options ?c1" using Cons.prems by (simp add: pass_inv_def)
    from Cons.IH [OF pass_inv_single_file [OF this]] Some show ?thesis by simp
  qed
qed

lemma pass_inv_new_pass: "pass_inv options (new_pass c)"
  by (simp add: pass_inv_def new_pass_def progress_ok_def parents_ok_def pending_of_def
      calls_of_def)

lemma traverseDependencies_pass_inv:
  assumes "traverseDependencies n options schedule paths c = Inr (c', res)"
  shows "pass_inv options c'" and "roots_done c'"
proof -
  from assms have
    run: "run n options schedule (start_paths options paths (new_pass c)) = Inr c'"
    and fin: "roots_done c'"
    by (auto simp add: traverseDependencies_def split: sum.splits if_splits)
  from pass_inv_run [OF pass_inv_start_paths [OF pass_inv_new_pass] run]
  show "pass_inv options c'" .
  from fin show "roots_done c'" .
qed

lemma pass_inv_complete:
  assumes inv: "pass_inv options c" and fin: "roots_done c"
  shows "fst (counters c k) = snd (counters c k)"
proof -
  from inv have ok: "progress_ok (tasks c) (counters c) (progress c)"
    and par: "parents_ok (tasks c)"
    by (simp_all add: pass_inv_def)
  from fin have roots: "\<forall>u \<in> set (tasks c). task_parent u = None \<longrightarrow> task_status u = Done"
    by (simp add: roots_done_def list_all_iff)
  have "\<forall>u \<in> set (tasks c). task_status u = Done"
    using parents_ok_all_done [OF par roots] by (auto simp add: in_set_conv_nth)
  from pending_of_all_done [OF this, of k] progress_ok_counter [OF ok, of k]
  show ?thesis by simp
qed

section \<open>Unfolding the concrete graphs\<close>

lemmas example_defs =
  diamond_config_def diamond_dropped_def cycle_config_def moved_config_def
  config_of_def module_of_def empty_config_def
  inverse_delete_def inverse_add_def deleted_add_def graph_delete_def
  set_delete_def set_add_def map_has_def

lemmas pass_defs =
  traverseDependencies_def new_pass_def traverseDependenciesForSingleFile_def report_def
  files_def processModule_start_def processModule_resume_def resolveDependencies_def
  set_all_def addDependency_def createModule_def onDependencyAdd_def onDependencyAdded_def
  finish_def children_done_def roots_done_def Let_def

lemmas cold_defs =
  initialTraverseDependencies_def create_entries_def reorderGraph_def graph_inv_def
  paths_agree_def

section \<open>The depth-first traversal of \<open>reorderDependencies\<close>\<close>



section \<open>Graphs stay well-formed during a pass\<close>


lemma graph_inv_frame:
  assumes "graph_inv c" and "graph c' = graph c" and "nextRef c' = nextRef c"
    and "\<And>r. path (heap c' r) = path (heap c r)"
  shows "graph_inv c'"
  using assms by (simp add: graph_inv_def paths_agree_def)

lemma set_update_subset: "set (AList.update k v al) \<subseteq> insert (k, v) (set al)"
  by (induction al) auto

lemma graph_inv_createModule:
  assumes inv: "graph_inv c" and p: "p \<noteq> []"
  shows "graph_inv (snd (createModule p c))"
proof -
  let ?ds = "graph_dependencies (graph c)"
  from inv have pa: "\<forall>e \<in> set ?ds. path (heap c (snd e)) = fst e"
    and below: "\<forall>e \<in> set ?ds. snd e < nextRef c" and ne: "map_of ?ds [] = None"
    by (simp_all add: graph_inv_def paths_agree_def list_all_iff)
  have sub: "set (AList.update p (nextRef c) ?ds) \<subseteq> insert (p, nextRef c) (set ?ds)"
    by (rule set_update_subset)
  have "\<forall>e \<in> set (AList.update p (nextRef c) ?ds).
      path (((heap c)(nextRef c := \<lparr>dependencies = [], inverseDependencies = [], path = p,
               module_output = \<lparr>code = [], sourcemap = [], source = [], otype = module\<rparr>\<rparr>))
              (snd e)) = fst e \<and> snd e < Suc (nextRef c)"
  proof
    fix e assume "e \<in> set (AList.update p (nextRef c) ?ds)"
    with sub have "e = (p, nextRef c) \<or> e \<in> set ?ds" by auto
    then show "path (((heap c)(nextRef c := \<lparr>dependencies = [], inverseDependencies = [], path = p,
               module_output = \<lparr>code = [], sourcemap = [], source = [], otype = module\<rparr>\<rparr>))
              (snd e)) = fst e \<and> snd e < Suc (nextRef c)"
      using pa below by auto
  qed
  moreover have "map_of (AList.update p (nextRef c) ?ds) [] = None"
    using ne p by (simp add: update_conv')
  ultimately show ?thesis
    by (simp add: graph_inv_def paths_agree_def list_all_iff createModule_def Let_def)
qed

lemma graph_inv_addDependency:
  assumes inv: "graph_inv c" and p: "p \<noteq> []"
  shows "graph_inv (addDependency options t parentModule p c)"
proof (cases "graph_get c p")
  case (Some existingModule)
  then have "addDependency options t parentModule p c =
      inverse_add existingModule (path (heap c parentModule)) c"
    by (simp add: addDependency_def)
  then show ?thesis
    by (simp, intro graph_inv_frame [OF inv]) (simp_all add: inverse_add_def)
next
  case None
  let ?c1 = "snd (createModule p c)"
  have inv1: "graph_inv ?c1" by (rule graph_inv_createModule [OF inv p])
  show ?thesis
  proof (rule graph_inv_frame [OF inv1])
    show "graph (addDependency options t parentModule p c) = graph ?c1"
      "nextRef (addDependency options t parentModule p c) = nextRef ?c1"
      "\<And>r. path (heap (addDependency options t parentModule p c) r) = path (heap ?c1 r)"
      using None
      by (simp_all add: addDependency_def createModule_def Let_def inverse_add_def
          onDependencyAdd_def report_def processModule_start_def)
  qed
qed

lemma graph_inv_add_current:
  "graph_inv c \<Longrightarrow> [] \<notin> snd ` set entries \<Longrightarrow>
     graph_inv (add_current options t r previous entries c)"
proof (induction entries arbitrary: c)
  case Nil
  then show ?case by simp
next
  case (Cons e entries)
  obtain rel abs where e: "e = (rel, abs)" by (cases e)
  with Cons.prems have "abs \<noteq> []" "[] \<notin> snd ` set entries" by auto
  with Cons e show ?case by (simp add: graph_inv_addDependency)
qed



lemma start_paths_fields:
  "graph (start_paths options ps c) = graph c"
  "heap (start_paths options ps c) = heap c"
  "nextRef (start_paths options ps c) = nextRef c"
  by (induction ps arbitrary: c)
     (auto simp add: traverseDependenciesForSingleFile_def Let_def processModule_start_def
        report_def split: option.splits)

lemma create_entries_entryPoints:
  "entryPoints (graph (create_entries es c)) = entryPoints (graph c)"
  unfolding create_entries_def
  by (induction es arbitrary: c) (simp_all add: createModule_def Let_def)

section \<open>\<open>reorderGraph\<close> keeps the reachable modules\<close>





section \<open>The tasks started for the changed paths\<close>

lemma root_task_cong:
  "graph c' = graph c \<Longrightarrow> heap c' = heap c \<Longrightarrow> root_task c' = root_task c"
  by (simp add: root_task_def fun_eq_iff)

lemma mark_modified_cong:
  "graph c' = graph c \<Longrightarrow> heap c' = heap c \<Longrightarrow> mark_modified c' = mark_modified c"
  by (simp add: mark_modified_def fun_eq_iff)

lemma present_cong: "graph c' = graph c \<Longrightarrow> present c' = present c"
  by (simp add: present_def fun_eq_iff)

lemma start_paths_started:
  "tasks (start_paths options ps c) =
     tasks c @ map (\<lambda>(k, p). root_task c k p) (enumerate (length (tasks c)) (present c ps))
   \<and> modified (delta (start_paths options ps c)) =
     fold (mark_modified c) (present c ps) (modified (delta c))
   \<and> added (delta (start_paths options ps c)) = added (delta c)
   \<and> deleted (delta (start_paths options ps c)) = deleted (delta c)"
proof (induction ps arbitrary: c)
  case Nil
  show ?case by (simp add: present_def)
next
  case (Cons p ps)
  show ?case
  proof (cases "graph_get c p")
    case None
    then have "present c (p # ps) = present c ps" by (simp add: present_def map_has_def)
    with None Cons.IH [of c] show ?thesis by simp
  next
    case (Some r)
    let ?c0 = "c\<lparr>delta := (delta c)\<lparr>modified :=
                     AList.update (path (heap c r)) r (modified (delta c))\<rparr>\<rparr>"
    let ?c1 = "traverseDependenciesForSingleFile options r ?c0"
    have f: "graph ?c1 = graph c" "heap ?c1 = heap c"
      by (simp_all add: traverseDependenciesForSingleFile_def Let_def processModule_start_def
          report_def)
    have g: "tasks ?c1 = tasks c @ [root_task c (length (tasks c)) p]"
      "modified (delta ?c1) = mark_modified c p (modified (delta c))"
      "added (delta ?c1) = added (delta c)" "deleted (delta ?c1) = deleted (delta c)"
      using Some
      by (simp_all add: traverseDependenciesForSingleFile_def Let_def processModule_start_def
          report_def root_task_def mark_modified_def)
    have pp: "present c (p # ps) = p # present c ps"
      using Some by (simp add: present_def map_has_def)
    have eq: "start_paths options (p # ps) c = start_paths options ps ?c1"
      using Some by simp
    from Cons.IH [of ?c1] show ?thesis
      unfolding eq root_task_cong [OF f] mark_modified_cong [OF f] present_cong [OF f(1)] g pp
      by simp
  qed
qed

lemma map_has_fold_update:
  "map_has (fold (\<lambda>p. AList.update (f p) (g p)) xs m) k \<longleftrightarrow> k \<in> f ` set xs \<or> map_has m k"
  by (induction xs arbitrary: m) (auto simp add: map_has_def update_conv')

lemma modified_addDependency:
  "modified (delta (addDependency options t r p c)) = modified (delta c)"
  by (simp add: addDependency_def inverse_add_def createModule_def Let_def onDependencyAdd_def
      report_def processModule_start_def split: option.splits)

lemma modified_add_current:
  "modified (delta (add_current options t r prev es c)) = modified (delta c)"
  by (induction es arbitrary: c) (auto simp add: modified_addDependency)

lemma modified_remove_previous:
  "remove_previous n r current previous c = Some c' \<Longrightarrow>
     modified (delta c') = modified (delta c)"
proof (induction previous arbitrary: c)
  case Nil
  then show ?case by simp
next
  case (Cons e previous)
  obtain rel abs where e: "e = (rel, abs)" by (cases e)
  show ?case
  proof (cases "map_has current rel")
    case True
    with Cons e show ?thesis by simp
  next
    case False
    with Cons.prems e obtain c1 where
      c1: "removeDependency n r abs c = Some c1"
      and rest: "remove_previous n r current previous c1 = Some c'"
      by (auto split: option.splits)
    from removal_frame(7) [OF removeDependency_removal(1) [OF c1]] Cons.IH [OF rest]
    show ?thesis by simp
  qed
qed

lemma modified_step:
  assumes "step n options e c = Inr c'"
  shows "modified (delta c') = modified (delta c)"
proof (cases e)
  case (TransformDone t)
  with assms have "processModule_resume n options t c = Inr c'"
    by (simp split: if_splits)
  then obtain result :: TransformResult and current c2 where
    c2: "remove_previous n (task_module (tasks c ! t)) current (task_previous (tasks c ! t))
           (c\<lparr>heap := (heap c)(task_module (tasks c ! t) :=
                 (heap c (task_module (tasks c ! t)))
                   \<lparr>dependencies := set_all current [],
                    module_output := tr_output result\<rparr>)\<rparr>) = Some c2"
    and c': "c' = (add_current options t (task_module (tasks c ! t))
                     (task_previous (tasks c ! t)) current c2)
                  \<lparr>tasks := (tasks (add_current options t (task_module (tasks c ! t))
                     (task_previous (tasks c ! t)) current c2))
                     [t := (tasks (add_current options t (task_module (tasks c ! t))
                     (task_previous (tasks c ! t)) current c2) ! t)
                        \<lparr>task_status := AwaitChildren\<rparr>]\<rparr>"
    by (auto simp add: processModule_resume_def Let_def split: option.splits)
  from modified_remove_previous [OF c2] show ?thesis
    by (simp add: c' modified_add_current)
next
  case (Finish t)
  with assms show ?thesis
    by (auto simp add: finish_def Let_def onDependencyAdded_def report_def split: if_splits)
qed

lemma modified_run:
  "run n options es c = Inr c' \<Longrightarrow> modified (delta c') = modified (delta c)"
proof (induction es arbitrary: c)
  case Nil
  then show ?case by simp
next
  case (Cons e es)
  then obtain c1 where 1: "step n options e c = Inr c1" and 2: "run n options es c1 = Inr c'"
    by (auto split: sum.splits)
  from modified_step [OF 1] Cons.IH [OF 2] show ?case by simp
qed

lemma reconcile_modified:
  assumes "map_has (modified d) k"
  shows "(k \<in> set (deleted d) \<longrightarrow> k \<in> set (result_deleted (reconcile d))
            \<and> \<not> map_has (result_added (reconcile d)) k)
       \<and> (k \<notin> set (deleted d) \<longrightarrow> map_has (result_added (reconcile d)) k)"
  using assms reconcile_deleted_modified(1) [of k "deleted d" "set_all (modified d) []"
      "set_all (modified d) (set_all (added d) [])" "[]"]
  by (simp add: reconcile_sel reconcile_deleted_added map_has_set_all)

section \<open>A cascade that returns to its starting point\<close>

lemma removeAll_only: "set xs \<subseteq> {x} \<Longrightarrow> removeAll x xs = []"
  by (induction xs) auto

lemma cycle_never_returns:
  assumes "graph_get c ''/A'' = Some a" and "graph_get c ''/B'' = Some b" and "a \<noteq> b"
    and "path (heap c a) = ''/A''" and "path (heap c b) = ''/B''"
    and "map snd (dependencies (heap c a)) = [''/B'']"
    and "map snd (dependencies (heap c b)) = [''/A'']"
    and "set (inverseDependencies (heap c a)) \<subseteq> {''/B''}"
    and "set (inverseDependencies (heap c b)) \<subseteq> {''/A''}"
  shows "removeDependency n a ''/B'' c = None \<and> removeDependency n b ''/A'' c = None"
  using assms
proof (induction n arbitrary: c)
  case 0
  show ?case by simp
next
  case (Suc n)
  let ?c1 = "deleted_add ''/B'' (inverse_delete b ''/A'' c)"
  let ?c2 = "deleted_add ''/A'' (inverse_delete a ''/B'' c)"
  have e1: "removeAll ''/A'' (inverseDependencies (heap c b)) = []"
    and e2: "removeAll ''/B'' (inverseDependencies (heap c a)) = []"
    using Suc.prems(8,9) by (simp_all add: removeAll_only)
  have "removeDependency n a ''/B'' ?c1 = None \<and> removeDependency n b ''/A'' ?c1 = None"
    by (rule Suc.IH)
       (use Suc.prems e1 in \<open>simp_all add: deleted_add_def inverse_delete_def set_delete_def\<close>)
  moreover
  have "removeDependency n a ''/B'' ?c2 = None \<and> removeDependency n b ''/A'' ?c2 = None"
    by (rule Suc.IH)
       (use Suc.prems e2 in \<open>simp_all add: deleted_add_def inverse_delete_def set_delete_def\<close>)
  ultimately show ?case
    using Suc.prems e1 e2
    by (simp add: Let_def inverse_delete_def set_delete_def deleted_add_def)
qed

section \<open>A pass over freshly created modules\<close>

text \<open>Graphs and heaps that only grow.\<close>

lemma graph_inv_below: "graph_inv c \<Longrightarrow> graph_get c k = Some r \<Longrightarrow> r < nextRef c"
  by (auto simp add: graph_inv_def list_all_iff dest!: map_of_SomeD)

lemma graph_inv_path: "graph_inv c \<Longrightarrow> graph_get c k = Some r \<Longrightarrow> path (heap c r) = k"
  by (simp add: graph_inv_def paths_agree_get)

lemma extends_refl: "extends c c"
  by (simp add: extends_def)

lemma extends_get: "extends c c' \<Longrightarrow> graph_get c k = Some r \<Longrightarrow> graph_get c' k = Some r"
  by (simp add: extends_def)

lemma extends_heap:
  assumes "extends c c'" and "r < nextRef c"
  shows "path (heap c' r) = path (heap c r)"
    "dependencies (heap c' r) = dependencies (heap c r)"
    "set (inverseDependencies (heap c r)) \<subseteq> set (inverseDependencies (heap c' r))"
  using assms by (simp_all add: extends_def)

lemma extends_next: "extends c c' \<Longrightarrow> nextRef c \<le> nextRef c'"
  by (simp add: extends_def)

lemma extends_trans:
  assumes 1: "extends c c'" and 2: "extends c' c''"
  shows "extends c c''"
  unfolding extends_def
proof (intro conjI allI impI)
  fix k r assume "graph_get c k = Some r"
  then show "graph_get c'' k = Some r"
    by (intro extends_get [OF 2] extends_get [OF 1])
next
  fix r assume r: "r < nextRef c"
  with extends_next [OF 1] have r': "r < nextRef c'" by simp
  show "path (heap c'' r) = path (heap c r)"
    using extends_heap(1) [OF 1 r] extends_heap(1) [OF 2 r'] by simp
  show "dependencies (heap c'' r) = dependencies (heap c r)"
    using extends_heap(2) [OF 1 r] extends_heap(2) [OF 2 r'] by simp
  show "set (inverseDependencies (heap c r)) \<subseteq> set (inverseDependencies (heap c'' r))"
    using extends_heap(3) [OF 1 r] extends_heap(3) [OF 2 r'] by blast
next
  show "nextRef c \<le> nextRef c''"
    using extends_next [OF 1] extends_next [OF 2] by simp
qed

lemma extends_recorded:
  assumes "extends c c'" and "graph_inv c" and "recorded c x d"
  shows "recorded c' x d"
proof -
  from assms(3) obtain q where q: "graph_get c d = Some q"
    and x: "x \<in> set (inverseDependencies (heap c q))"
    by (auto simp add: recorded_def)
  from extends_heap(3) [OF assms(1) graph_inv_below [OF assms(2) q]] x
  have "x \<in> set (inverseDependencies (heap c' q))" by blast
  with extends_get [OF assms(1) q] show ?thesis
    unfolding recorded_def by blast
qed

lemma extends_processed:
  assumes ex: "extends c c'" and inv: "graph_inv c" and r: "r < nextRef c"
    and p: "processed options c r"
  shows "processed options c' r"
proof -
  note same = extends_heap(1,2) [OF ex r]
  from p obtain cur where cur: "current_of options (path (heap c r)) = Some cur"
    "dependencies (heap c r) = set_all cur []"
    "\<forall>d \<in> snd ` set cur. recorded c (path (heap c r)) d"
    by (auto simp add: processed_def)
  from cur(3) have "\<forall>d \<in> snd ` set cur. recorded c' (path (heap c r)) d"
    using extends_recorded [OF ex inv] by blast
  with cur(1,2) show ?thesis
    unfolding processed_def same by blast
qed

text \<open>\<open>addDependency\<close> on a path that has a module.\<close>

lemma extends_inverse_add: "extends c (inverse_add q x c)"
  by (auto simp add: extends_def inverse_add_def set_set_add)

lemma recorded_inverse_add:
  "graph_get c d = Some q \<Longrightarrow> recorded (inverse_add q x c) x d"
  by (simp add: recorded_def inverse_add_def set_set_add)

text \<open>\<open>addDependency\<close> on a path that has none.\<close>

lemma addDependency_new:
  assumes none: "graph_get c p = None"
  shows "heap (addDependency options t parentModule p c) =
      (heap c)(nextRef c := \<lparr>dependencies = [],
         inverseDependencies = [path (((heap c)(nextRef c := \<lparr>dependencies = [],
            inverseDependencies = [], path = p,
            module_output = \<lparr>code = [], sourcemap = [], source = [], otype = module\<rparr>\<rparr>))
            parentModule)],
         path = p,
         module_output = \<lparr>code = [], sourcemap = [], source = [], otype = module\<rparr>\<rparr>)"
    and "graph_dependencies (graph (addDependency options t parentModule p c)) =
      AList.update p (nextRef c) (graph_dependencies (graph c))"
    and "entryPoints (graph (addDependency options t parentModule p c)) = entryPoints (graph c)"
    and "nextRef (addDependency options t parentModule p c) = Suc (nextRef c)"
    and "tasks (addDependency options t parentModule p c) =
      tasks c @ [\<lparr>task_module = nextRef c, task_previous = [],
                  task_root = task_root (tasks c ! t), task_parent = Some t,
                  task_status = AwaitTransform\<rparr>]"
  using none
  by (simp_all add: addDependency_def createModule_def Let_def inverse_add_def
      onDependencyAdd_def report_def processModule_start_def set_add_def)

lemma addDependency_existing_eq:
  "graph_get c p = Some q \<Longrightarrow>
     addDependency options t parentModule p c = inverse_add q (path (heap c parentModule)) c"
  by (simp add: addDependency_def)

lemma extends_addDependency:
  assumes "graph_inv c"
  shows "extends c (addDependency options t parentModule p c)"
proof (cases "graph_get c p")
  case (Some q)
  then show ?thesis by (simp add: addDependency_existing_eq extends_inverse_add)
next
  case None
  note new = addDependency_new [OF None, of options t parentModule]
  show ?thesis
    unfolding extends_def new
    using None by (auto simp add: update_conv')
qed

lemma recorded_addDependency:
  assumes inv: "graph_inv c" and par: "parentModule < nextRef c"
  shows "recorded (addDependency options t parentModule p c) (path (heap c parentModule)) p"
proof (cases "graph_get c p")
  case (Some q)
  then show ?thesis by (simp add: addDependency_existing_eq recorded_inverse_add)
next
  case None
  note new = addDependency_new [OF None, of options t parentModule]
  show ?thesis
    unfolding recorded_def new
    using par by (simp add: update_conv')
qed

text \<open>The invariant of such a pass, and \<open>addDependency\<close>.\<close>

lemma cold_inv_graph: "cold_inv options c \<Longrightarrow> graph_inv c"
  by (simp add: cold_inv_def)

lemma cold_inv_task:
  assumes "cold_inv options c" and "u \<in> set (tasks c)"
  shows "task_previous u = []"
    "graph_get c (path (heap c (task_module u))) = Some (task_module u)"
    "task_status u \<noteq> AwaitTransform \<Longrightarrow> processed options c (task_module u)"
  using assms by (simp_all add: cold_inv_def)

lemma cold_inv_module:
  assumes "cold_inv options c" and "graph_get c k = Some r"
  shows "r \<in> task_module ` set (tasks c)"
    "x \<in> set (inverseDependencies (heap c r)) \<Longrightarrow>
       \<exists>cur. current_of options x = Some cur \<and> k \<in> snd ` set cur"
  using assms by (simp_all add: cold_inv_def)

lemma cold_inv_entry:
  "cold_inv options c \<Longrightarrow> e \<in> set (entryPoints (graph c)) \<Longrightarrow> graph_get c e \<noteq> None"
  by (simp add: cold_inv_def)

lemma cold_invI:
  assumes "graph_inv c"
    and "\<And>u. u \<in> set (tasks c) \<Longrightarrow> task_previous u = []"
    and "\<And>u. u \<in> set (tasks c) \<Longrightarrow>
           graph_get c (path (heap c (task_module u))) = Some (task_module u)"
    and "\<And>u. u \<in> set (tasks c) \<Longrightarrow> task_status u \<noteq> AwaitTransform \<Longrightarrow>
           processed options c (task_module u)"
    and "\<And>k r. graph_get c k = Some r \<Longrightarrow> r \<in> task_module ` set (tasks c)"
    and "\<And>k r x. graph_get c k = Some r \<Longrightarrow> x \<in> set (inverseDependencies (heap c r)) \<Longrightarrow>
           \<exists>cur. current_of options x = Some cur \<and> k \<in> snd ` set cur"
    and "\<And>e. e \<in> set (entryPoints (graph c)) \<Longrightarrow> graph_get c e \<noteq> None"
  shows "cold_inv options c"
  unfolding cold_inv_def
proof (intro conjI ballI allI impI)
  show "graph_inv c" by (rule assms(1))
qed (use assms(2-7) in blast)+

lemma cold_inv_task_below:
  "cold_inv options c \<Longrightarrow> u \<in> set (tasks c) \<Longrightarrow> task_module u < nextRef c"
  using graph_inv_below [OF cold_inv_graph cold_inv_task(2)] by blast

lemma cold_addDependency:
  assumes inv: "cold_inv options c" and t: "t < length (tasks c)"
    and par: "parentModule = task_module (tasks c ! t)"
    and cur: "current_of options (path (heap c parentModule)) = Some cur"
    and p: "p \<in> snd ` set cur" "p \<noteq> []"
  shows "cold_inv options (addDependency options t parentModule p c)"
proof -
  let ?c' = "addDependency options t parentModule p c"
  let ?x = "path (heap c parentModule)"
  note gi = cold_inv_graph [OF inv]
  have gi': "graph_inv ?c'" by (rule graph_inv_addDependency [OF gi p(2)])
  have ex: "extends c ?c'" by (rule extends_addDependency [OF gi])
  have tin: "tasks c ! t \<in> set (tasks c)" using t by simp
  have parb: "parentModule < nextRef c"
    using cold_inv_task_below [OF inv tin] par by simp
  have entries: "entryPoints (graph ?c') = entryPoints (graph c)"
    by (cases "graph_get c p")
      (simp_all add: addDependency_new(3) addDependency_existing_eq inverse_add_def)
  have old_task: "task_previous u = [] \<and>
      graph_get ?c' (path (heap ?c' (task_module u))) = Some (task_module u) \<and>
      (task_status u \<noteq> AwaitTransform \<longrightarrow> processed options ?c' (task_module u))"
    if u: "u \<in> set (tasks c)" for u
  proof -
    note b = cold_inv_task_below [OF inv u]
    have "graph_get ?c' (path (heap c (task_module u))) = Some (task_module u)"
      by (rule extends_get [OF ex cold_inv_task(2) [OF inv u]])
    then have "graph_get ?c' (path (heap ?c' (task_module u))) = Some (task_module u)"
      by (simp add: extends_heap(1) [OF ex b])
    moreover have "processed options ?c' (task_module u)" if "task_status u \<noteq> AwaitTransform"
      by (rule extends_processed [OF ex gi b cold_inv_task(3) [OF inv u that]])
    ultimately show ?thesis using cold_inv_task(1) [OF inv u] by simp
  qed
  show ?thesis
  proof (cases "graph_get c p")
    case (Some q)
    note eq = addDependency_existing_eq [OF Some, of options t parentModule]
    have tasks': "tasks ?c' = tasks c" and graph': "graph ?c' = graph c"
      by (simp_all add: eq inverse_add_def)
    show ?thesis
    proof (rule cold_invI [OF gi'])
      fix u assume "u \<in> set (tasks ?c')"
      then have u: "u \<in> set (tasks c)" by (simp add: tasks')
      from old_task [OF u] show "task_previous u = []"
        "graph_get ?c' (path (heap ?c' (task_module u))) = Some (task_module u)"
        by simp_all
      show "processed options ?c' (task_module u)" if "task_status u \<noteq> AwaitTransform"
        using old_task [OF u] that by simp
    next
      fix k r assume kr: "graph_get ?c' k = Some r"
      then have kr0: "graph_get c k = Some r" by (simp add: graph')
      from cold_inv_module(1) [OF inv kr0] show "r \<in> task_module ` set (tasks ?c')"
        by (simp add: tasks')
      fix x assume x: "x \<in> set (inverseDependencies (heap ?c' r))"
      show "\<exists>cur. current_of options x = Some cur \<and> k \<in> snd ` set cur"
      proof (cases "x \<in> set (inverseDependencies (heap c r))")
        case True
        from cold_inv_module(2) [OF inv kr0 True] show ?thesis .
      next
        case False
        with x have "r = q" "x = ?x"
          by (auto simp add: eq inverse_add_def set_set_add split: if_splits)
        moreover from this kr0 Some graph_inv_path [OF gi] have "k = p" by metis
        ultimately show ?thesis using cur p(1) by simp
      qed
    next
      fix e assume "e \<in> set (entryPoints (graph ?c'))"
      with cold_inv_entry [OF inv] show "graph_get ?c' e \<noteq> None"
        by (simp add: graph')
    qed
  next
    case None
    note new = addDependency_new [OF None, of options t parentModule]
    let ?r' = "nextRef c"
    have pne: "parentModule \<noteq> ?r'" using parb by simp
    have heap_new: "path (heap ?c' ?r') = p" "inverseDependencies (heap ?c' ?r') = [?x]"
      using pne by (simp_all add: new)
    have heap_old: "heap ?c' r = heap c r" if "r < nextRef c" for r
      using that by (simp add: new)
    have get': "graph_get ?c' k = (if k = p then Some ?r' else graph_get c k)" for k
      by (simp add: new update_conv')
    show ?thesis
    proof (rule cold_invI [OF gi'])
      fix u assume "u \<in> set (tasks ?c')"
      then consider "u \<in> set (tasks c)"
        | "u = \<lparr>task_module = ?r', task_previous = [], task_root = task_root (tasks c ! t),
                 task_parent = Some t, task_status = AwaitTransform\<rparr>"
        by (auto simp add: new)
      then have "task_previous u = [] \<and>
        graph_get ?c' (path (heap ?c' (task_module u))) = Some (task_module u) \<and>
        (task_status u \<noteq> AwaitTransform \<longrightarrow> processed options ?c' (task_module u))"
      proof cases
        case 1
        from old_task [OF 1] show ?thesis .
      next
        case 2
        then show ?thesis by (simp add: heap_new get')
      qed
      then show "task_previous u = []"
        "graph_get ?c' (path (heap ?c' (task_module u))) = Some (task_module u)"
        "task_status u \<noteq> AwaitTransform \<Longrightarrow> processed options ?c' (task_module u)"
        by simp_all
    next
      fix k r assume kr: "graph_get ?c' k = Some r"
      show "r \<in> task_module ` set (tasks ?c')"
      proof (cases "k = p")
        case True
        with kr have "r = ?r'" by (simp add: get')
        then show ?thesis by (simp add: new)
      next
        case False
        with kr have "graph_get c k = Some r" by (simp add: get')
        from cold_inv_module(1) [OF inv this] show ?thesis by (auto simp add: new)
      qed
      fix x assume x: "x \<in> set (inverseDependencies (heap ?c' r))"
      show "\<exists>cur. current_of options x = Some cur \<and> k \<in> snd ` set cur"
      proof (cases "k = p")
        case True
        with kr have "r = ?r'" by (simp add: get')
        with x have "x = ?x" by (simp add: heap_new)
        with cur p(1) True show ?thesis by simp
      next
        case False
        with kr have kr0: "graph_get c k = Some r" by (simp add: get')
        from graph_inv_below [OF gi kr0] x have "x \<in> set (inverseDependencies (heap c r))"
          by (simp add: heap_old)
        from cold_inv_module(2) [OF inv kr0 this] show ?thesis .
      qed
    next
      fix e assume "e \<in> set (entryPoints (graph ?c'))"
      with cold_inv_entry [OF inv] show "graph_get ?c' e \<noteq> None"
        by (simp add: entries get')
    qed
  qed
qed

text \<open>\<open>processModule\<close> once its transform has resolved.\<close>

lemma cold_add_current:
  assumes "cold_inv options c" and "t < length (tasks c)"
    and "r = task_module (tasks c ! t)"
    and "current_of options (path (heap c r)) = Some cur"
    and "snd ` set entries \<subseteq> snd ` set cur" and "[] \<notin> snd ` set entries"
  shows "cold_inv options (add_current options t r [] entries c)
    \<and> extends c (add_current options t r [] entries c)
    \<and> (\<forall>d \<in> snd ` set entries. recorded (add_current options t r [] entries c) (path (heap c r)) d)
    \<and> length (tasks c) \<le> length (tasks (add_current options t r [] entries c))
    \<and> tasks (add_current options t r [] entries c) ! t = tasks c ! t"
  using assms
proof (induction entries arbitrary: c)
  case Nil
  then show ?case by (simp add: extends_refl)
next
  case (Cons e entries)
  obtain rel abs where e: "e = (rel, abs)" by (cases e)
  let ?c1 = "addDependency options t r abs c"
  let ?c' = "add_current options t r [] entries ?c1"
  note inv = Cons.prems(1) and t = Cons.prems(2) and r = Cons.prems(3) and cur = Cons.prems(4)
  from Cons.prems(5,6) e have abs: "abs \<in> snd ` set cur" "abs \<noteq> []"
    and rest: "snd ` set entries \<subseteq> snd ` set cur" "[] \<notin> snd ` set entries"
    by auto
  note gi = cold_inv_graph [OF inv]
  have tin: "tasks c ! t \<in> set (tasks c)" using t by simp
  have rb: "r < nextRef c" using cold_inv_task_below [OF inv tin] r by simp
  have inv1: "cold_inv options ?c1"
    by (rule cold_addDependency [OF inv t r cur abs])
  have ex1: "extends c ?c1" by (rule extends_addDependency [OF gi])
  have rec1: "recorded ?c1 (path (heap c r)) abs"
    by (rule recorded_addDependency [OF gi rb])
  have len1: "length (tasks c) \<le> length (tasks ?c1)" and nth1: "tasks ?c1 ! t = tasks c ! t"
    using t
    by (cases "graph_get c abs";
        simp add: addDependency_existing_eq inverse_add_def addDependency_new(5) nth_append)+
  have p1: "path (heap ?c1 r) = path (heap c r)" by (rule extends_heap(1) [OF ex1 rb])
  have t1: "t < length (tasks ?c1)" using t len1 by simp
  have r1: "r = task_module (tasks ?c1 ! t)" using r nth1 by simp
  have cur1: "current_of options (path (heap ?c1 r)) = Some cur" using cur p1 by simp
  from Cons.IH [OF inv1 t1 r1 cur1 rest]
  have IH: "cold_inv options ?c'" "extends ?c1 ?c'"
    "\<forall>d \<in> snd ` set entries. recorded ?c' (path (heap ?c1 r)) d"
    "length (tasks ?c1) \<le> length (tasks ?c')" "tasks ?c' ! t = tasks ?c1 ! t"
    by simp_all
  have "recorded ?c' (path (heap c r)) abs"
    by (rule extends_recorded [OF IH(2) cold_inv_graph [OF inv1] rec1])
  with IH p1 have "\<forall>d \<in> snd ` set (e # entries). recorded ?c' (path (heap c r)) d"
    by (simp add: e)
  moreover have "add_current options t r [] (e # entries) c = ?c'"
    by (simp add: e)
  moreover have "extends c ?c'" by (rule extends_trans [OF ex1 IH(2)])
  ultimately show ?case using IH len1 nth1 by simp
qed

lemma cold_resume:
  assumes inv: "cold_inv options c"
    and nonempty: "\<And>cur. current_of options (path (heap c (task_module (tasks c ! t)))) = Some cur
        \<Longrightarrow> [] \<notin> snd ` set cur"
    and t: "t < length (tasks c)"
    and run: "processModule_resume n options t c = Inr c'"
  shows "cold_inv options c'"
proof -
  let ?u = "tasks c ! t"
  let ?r = "task_module ?u"
  have tin: "?u \<in> set (tasks c)" using t by simp
  note gi = cold_inv_graph [OF inv]
  have prev: "task_previous ?u = []" by (rule cold_inv_task(1) [OF inv tin])
  have rb: "?r < nextRef c" by (rule cold_inv_task_below [OF inv tin])
  from run obtain result :: TransformResult and current c2 where
    tr: "transform options (path (heap c ?r)) = Some result"
    and rs: "resolveDependencies (path (heap c ?r)) (tr_dependencies result) options = Some current"
    and c2: "remove_previous n ?r current (task_previous ?u)
           (c\<lparr>heap := (heap c)(?r := (heap c ?r)
                 \<lparr>dependencies := set_all current [],
                  module_output := tr_output result\<rparr>)\<rparr>) = Some c2"
    and c': "c' = (add_current options t ?r (task_previous ?u) current c2)
               \<lparr>tasks := (tasks (add_current options t ?r (task_previous ?u) current c2))
                  [t := (tasks (add_current options t ?r (task_previous ?u) current c2) ! t)
                         \<lparr>task_status := AwaitChildren\<rparr>]\<rparr>"
    by (elim processModule_resumeE) (rule that; assumption)
  let ?c1 = "c\<lparr>heap := (heap c)(?r := (heap c ?r)
                 \<lparr>dependencies := set_all current [],
                  module_output := tr_output result\<rparr>)\<rparr>"
  from c2 prev have c2_eq: "c2 = ?c1" by simp
  have cur: "current_of options (path (heap c ?r)) = Some current"
    by (simp add: current_of_def tr rs)
  have h1: "path (heap ?c1 q) = path (heap c q)"
    "inverseDependencies (heap ?c1 q) = inverseDependencies (heap c q)"
    "dependencies (heap ?c1 q) =
       (if q = ?r then set_all current [] else dependencies (heap c q))" for q
    by simp_all
  have rec1: "recorded ?c1 x d = recorded c x d" for x d
    unfolding recorded_def h1(2) by simp
  have proc1: "processed options ?c1 q" if "processed options c q" for q
  proof (cases "q = ?r")
    case True
    with that cur show ?thesis
      unfolding processed_def rec1 by (simp only: h1) auto
  next
    case False
    with that show ?thesis
      unfolding processed_def rec1 by (simp only: h1) auto
  qed
  have inv1: "cold_inv options ?c1"
  proof (rule cold_invI)
    show "graph_inv ?c1" by (rule graph_inv_frame [OF gi]) simp_all
  next
    fix u assume u: "u \<in> set (tasks ?c1)"
    then have u0: "u \<in> set (tasks c)" by simp
    from cold_inv_task(1,2) [OF inv u0]
    show "task_previous u = []"
      "graph_get ?c1 (path (heap ?c1 (task_module u))) = Some (task_module u)"
      by (simp_all only: h1) simp_all
    show "processed options ?c1 (task_module u)" if "task_status u \<noteq> AwaitTransform"
      by (rule proc1 [OF cold_inv_task(3) [OF inv u0 that]])
  next
    fix k r assume kr: "graph_get ?c1 k = Some r"
    then have kr0: "graph_get c k = Some r" by simp
    from cold_inv_module(1) [OF inv kr0] show "r \<in> task_module ` set (tasks ?c1)" by simp
    fix x assume "x \<in> set (inverseDependencies (heap ?c1 r))"
    then have "x \<in> set (inverseDependencies (heap c r))" by (simp only: h1)
    from cold_inv_module(2) [OF inv kr0 this]
    show "\<exists>cur. current_of options x = Some cur \<and> k \<in> snd ` set cur" .
  next
    fix e assume "e \<in> set (entryPoints (graph ?c1))"
    with cold_inv_entry [OF inv] show "graph_get ?c1 e \<noteq> None" by simp
  qed
  let ?c3 = "add_current options t ?r [] current ?c1"
  have t1: "t < length (tasks ?c1)" and r1: "?r = task_module (tasks ?c1 ! t)"
    using t by simp_all
  have cur1: "current_of options (path (heap ?c1 ?r)) = Some current"
    using cur by (simp only: h1)
  have ne: "[] \<notin> snd ` set current"
    by (rule nonempty [OF cur])
  from cold_add_current [OF inv1 t1 r1 cur1 subset_refl ne]
  have 3: "cold_inv options ?c3" "extends ?c1 ?c3"
    "\<forall>d \<in> snd ` set current. recorded ?c3 (path (heap ?c1 ?r)) d"
    "length (tasks ?c1) \<le> length (tasks ?c3)" "tasks ?c3 ! t = tasks ?c1 ! t"
    by simp_all
  have rb1: "?r < nextRef ?c1" using rb by simp
  have p3: "path (heap ?c3 ?r) = path (heap c ?r)"
    using extends_heap(1) [OF 3(2) rb1] by (simp only: h1)
  have d3: "dependencies (heap ?c3 ?r) = set_all current []"
    using extends_heap(2) [OF 3(2) rb1] by (simp only: h1) simp
  have proc3: "processed options ?c3 ?r"
    unfolding processed_def p3
  proof (intro exI conjI)
    show "current_of options (path (heap c ?r)) = Some current" by (rule cur)
    show "dependencies (heap ?c3 ?r) = set_all current []" by (rule d3)
    show "\<forall>d \<in> snd ` set current. recorded ?c3 (path (heap c ?r)) d"
      using 3(3) by (simp only: h1)
  qed
  have c'_eq: "c' = ?c3\<lparr>tasks := (tasks ?c3)[t := (tasks ?c3 ! t)\<lparr>task_status := AwaitChildren\<rparr>]\<rparr>"
    using c' prev c2_eq by simp
  let ?ts = "(tasks ?c3)[t := (tasks ?c3 ! t)\<lparr>task_status := AwaitChildren\<rparr>]"
  have t3: "t < length (tasks ?c3)" using t 3(4) by simp
  have m3: "task_module (tasks ?c3 ! t) = ?r" using 3(5) by simp
  have in_ts: "u \<in> set (tasks ?c3) \<or> u = (tasks ?c3 ! t)\<lparr>task_status := AwaitChildren\<rparr>"
    if "u \<in> set ?ts" for u
    using that set_update_subset_insert [of "tasks ?c3" t] by auto
  have mods: "task_module ` set ?ts = task_module ` set (tasks ?c3)"
  proof -
    have "map task_module ?ts = map task_module (tasks ?c3)"
      using t3 by (simp add: map_update list_update_same_conv)
    then have "set (map task_module ?ts) = set (map task_module (tasks ?c3))" by simp
    then show ?thesis by simp
  qed
  have t3in: "tasks ?c3 ! t \<in> set (tasks ?c3)" using t3 by simp
  show ?thesis
    unfolding c'_eq
  proof (rule cold_invI)
    show "graph_inv (?c3\<lparr>tasks := ?ts\<rparr>)"
      by (rule graph_inv_frame [OF cold_inv_graph [OF 3(1)]]) simp_all
  next
    fix u assume "u \<in> set (tasks (?c3\<lparr>tasks := ?ts\<rparr>))"
    then have "u \<in> set ?ts" by simp
    from in_ts [OF this]
    have "task_previous u = [] \<and>
        graph_get ?c3 (path (heap ?c3 (task_module u))) = Some (task_module u) \<and>
        (task_status u \<noteq> AwaitTransform \<longrightarrow> processed options ?c3 (task_module u))"
    proof
      assume u: "u \<in> set (tasks ?c3)"
      from cold_inv_task [OF 3(1) u] show ?thesis by simp
    next
      assume u: "u = (tasks ?c3 ! t)\<lparr>task_status := AwaitChildren\<rparr>"
      from cold_inv_task(1,2) [OF 3(1) t3in] proc3 m3 show ?thesis by (simp add: u)
    qed
    moreover have "processed options (?c3\<lparr>tasks := ?ts\<rparr>) q = processed options ?c3 q" for q
      by (simp add: processed_def recorded_def)
    ultimately show "task_previous u = []"
      "graph_get (?c3\<lparr>tasks := ?ts\<rparr>) (path (heap (?c3\<lparr>tasks := ?ts\<rparr>) (task_module u)))
         = Some (task_module u)"
      "task_status u \<noteq> AwaitTransform \<Longrightarrow>
         processed options (?c3\<lparr>tasks := ?ts\<rparr>) (task_module u)"
      by simp_all
  next
    fix k r assume "graph_get (?c3\<lparr>tasks := ?ts\<rparr>) k = Some r"
    then have kr: "graph_get ?c3 k = Some r" by simp
    from cold_inv_module(1) [OF 3(1) kr]
    show "r \<in> task_module ` set (tasks (?c3\<lparr>tasks := ?ts\<rparr>))"
      by (simp add: mods)
    fix x assume "x \<in> set (inverseDependencies (heap (?c3\<lparr>tasks := ?ts\<rparr>) r))"
    then have "x \<in> set (inverseDependencies (heap ?c3 r))" by simp
    from cold_inv_module(2) [OF 3(1) kr this]
    show "\<exists>cur. current_of options x = Some cur \<and> k \<in> snd ` set cur" .
  next
    fix e assume "e \<in> set (entryPoints (graph (?c3\<lparr>tasks := ?ts\<rparr>)))"
    with cold_inv_entry [OF 3(1)] show "graph_get (?c3\<lparr>tasks := ?ts\<rparr>) e \<noteq> None" by simp
  qed
qed

text \<open>A call that returns, and the end of the pass.\<close>

lemma cold_inv_status:
  assumes inv: "cold_inv options c" and t: "t < length (tasks c)"
    and proc: "s \<noteq> AwaitTransform \<Longrightarrow> processed options c (task_module (tasks c ! t))"
    and same: "heap c' = heap c" "graph c' = graph c" "nextRef c' = nextRef c"
    and ts: "tasks c' = (tasks c)[t := (tasks c ! t)\<lparr>task_status := s\<rparr>]"
  shows "cold_inv options c'"
proof -
  have in_ts: "u \<in> set (tasks c) \<or> u = (tasks c ! t)\<lparr>task_status := s\<rparr>"
    if "u \<in> set (tasks c')" for u
    using that set_update_subset_insert [of "tasks c" t] by (auto simp add: ts)
  have mods: "task_module ` set (tasks c') = task_module ` set (tasks c)"
  proof -
    have "map task_module (tasks c') = map task_module (tasks c)"
      using t by (simp add: ts map_update list_update_same_conv)
    then have "set (map task_module (tasks c')) = set (map task_module (tasks c))" by simp
    then show ?thesis by simp
  qed
  have tin: "tasks c ! t \<in> set (tasks c)" using t by simp
  have pr: "processed options c' q = processed options c q" for q
    by (simp add: processed_def recorded_def same)
  show ?thesis
  proof (rule cold_invI)
    show "graph_inv c'"
      by (rule graph_inv_frame [OF cold_inv_graph [OF inv]]) (simp_all add: same)
  next
    fix u assume "u \<in> set (tasks c')"
    from in_ts [OF this]
    have "task_previous u = [] \<and>
        graph_get c (path (heap c (task_module u))) = Some (task_module u) \<and>
        (task_status u \<noteq> AwaitTransform \<longrightarrow> processed options c (task_module u))"
    proof
      assume u: "u \<in> set (tasks c)"
      from cold_inv_task [OF inv u] show ?thesis by simp
    next
      assume u: "u = (tasks c ! t)\<lparr>task_status := s\<rparr>"
      from cold_inv_task(1,2) [OF inv tin] proc show ?thesis by (simp add: u)
    qed
    then show "task_previous u = []"
      "graph_get c' (path (heap c' (task_module u))) = Some (task_module u)"
      "task_status u \<noteq> AwaitTransform \<Longrightarrow> processed options c' (task_module u)"
      by (simp_all add: same pr)
  next
    fix k r assume "graph_get c' k = Some r"
    then have kr: "graph_get c k = Some r" by (simp add: same)
    from cold_inv_module(1) [OF inv kr] show "r \<in> task_module ` set (tasks c')"
      by (simp add: mods)
    fix x assume "x \<in> set (inverseDependencies (heap c' r))"
    then have "x \<in> set (inverseDependencies (heap c r))" by (simp add: same)
    from cold_inv_module(2) [OF inv kr this]
    show "\<exists>cur. current_of options x = Some cur \<and> k \<in> snd ` set cur" .
  next
    fix e assume "e \<in> set (entryPoints (graph c'))"
    with cold_inv_entry [OF inv] show "graph_get c' e \<noteq> None" by (simp add: same)
  qed
qed

lemma cold_final:
  assumes inv: "cold_inv options c" and pi: "pass_inv options c" and fin: "roots_done c"
    and kr: "graph_get c k = Some r"
  shows "processed options c r"
proof -
  from pi have par: "parents_ok (tasks c)" by (simp add: pass_inv_def)
  from fin have roots: "\<forall>u \<in> set (tasks c). task_parent u = None \<longrightarrow> task_status u = Done"
    by (simp add: roots_done_def list_all_iff)
  have all: "\<forall>u \<in> set (tasks c). task_status u = Done"
    using parents_ok_all_done [OF par roots] by (auto simp add: in_set_conv_nth)
  from cold_inv_module(1) [OF inv kr] obtain u where
    u: "u \<in> set (tasks c)" "task_module u = r" by auto
  with all have "task_status u \<noteq> AwaitTransform" by simp
  from cold_inv_task(3) [OF inv u(1) this] u(2) show ?thesis by simp
qed

section \<open>Passes that stay within a set of files\<close>

lemma closed_filesD:
  assumes "closed_files options F" and "p \<in> F"
  obtains cur where "current_of options p = Some cur" "snd ` set cur \<subseteq> F"
proof (cases "current_of options p")
  case None
  with assms show ?thesis by (auto simp add: closed_files_def)
next
  case (Some cur)
  from assms have "case current_of options p of None \<Rightarrow> False
                   | Some cur \<Rightarrow> snd ` set cur \<subseteq> F"
    unfolding closed_files_def by blast
  with Some have "snd ` set cur \<subseteq> F" by simp
  with Some show ?thesis by (rule that)
qed

lemma closed_files_nonempty: "closed_files options F \<Longrightarrow> [] \<notin> F"
  by (simp add: closed_files_def)

lemma withinD:
  assumes "within F c" and "graph_get c k = Some r"
  shows "k \<in> F" "set (inverseDependencies (heap c r)) \<subseteq> F"
  using assms by (simp_all add: within_def)

lemma within_frame:
  assumes "within F c" and "graph c' = graph c"
    and "\<And>r. inverseDependencies (heap c' r) = inverseDependencies (heap c r)"
  shows "within F c'"
  using assms by (simp add: within_def)

lemma within_addDependency:
  assumes gi: "graph_inv c" and w: "within F c" and x: "path (heap c parentModule) \<in> F"
    and p: "p \<in> F" and par: "parentModule < nextRef c"
  shows "within F (addDependency options t parentModule p c)"
proof (cases "graph_get c p")
  case (Some q)
  show ?thesis
    unfolding within_def addDependency_existing_eq [OF Some]
  proof (intro allI impI)
    fix k r assume "graph_get (inverse_add q (path (heap c parentModule)) c) k = Some r"
    then have kr: "graph_get c k = Some r" by (simp add: inverse_add_def)
    from withinD [OF w kr] x
    show "k \<in> F \<and> set (inverseDependencies
            (heap (inverse_add q (path (heap c parentModule)) c) r)) \<subseteq> F"
      by (cases "r = q") (simp_all add: inverse_add_def set_set_add)
  qed
next
  case None
  note new = addDependency_new [OF None, of options t parentModule]
  let ?c' = "addDependency options t parentModule p c"
  have pne: "parentModule \<noteq> nextRef c" using par by simp
  have get': "graph_get ?c' k = (if k = p then Some (nextRef c) else graph_get c k)" for k
    by (simp add: new update_conv')
  show ?thesis
    unfolding within_def
  proof (intro allI impI)
    fix k r assume kr: "graph_get ?c' k = Some r"
    show "k \<in> F \<and> set (inverseDependencies (heap ?c' r)) \<subseteq> F"
    proof (cases "k = p")
      case True
      with kr have "r = nextRef c" by (simp add: get')
      with True p x pne show ?thesis by (simp add: new)
    next
      case False
      with kr have kr0: "graph_get c k = Some r" by (simp add: get')
      from graph_inv_below [OF gi kr0] have "heap ?c' r = heap c r" by (simp add: new)
      with withinD [OF w kr0] show ?thesis by simp
    qed
  qed
qed

lemma within_add_current:
  assumes "graph_inv c" and "within F c" and "r < nextRef c" and "path (heap c r) \<in> F"
    and "snd ` set entries \<subseteq> F" and "[] \<notin> F"
  shows "within F (add_current options t r [] entries c)"
  using assms
proof (induction entries arbitrary: c)
  case Nil
  then show ?case by simp
next
  case (Cons e entries)
  obtain rel abs where e: "e = (rel, abs)" by (cases e)
  let ?c1 = "addDependency options t r abs c"
  from Cons.prems(5,6) e have abs: "abs \<in> F" "abs \<noteq> []" and rest: "snd ` set entries \<subseteq> F"
    by auto
  have gi1: "graph_inv ?c1" by (rule graph_inv_addDependency [OF Cons.prems(1) abs(2)])
  have w1: "within F ?c1"
    by (rule within_addDependency [OF Cons.prems(1,2,4) abs(1) Cons.prems(3)])
  have ex1: "extends c ?c1" by (rule extends_addDependency [OF Cons.prems(1)])
  have r1: "r < nextRef ?c1" using extends_next [OF ex1] Cons.prems(3) by simp
  have p1: "path (heap ?c1 r) \<in> F"
    using extends_heap(1) [OF ex1 Cons.prems(3)] Cons.prems(4) by simp
  from Cons.IH [OF gi1 w1 r1 p1 rest Cons.prems(6)] show ?case by (simp add: e)
qed

lemma cold_task_file:
  assumes inv: "cold_inv options c" and w: "within F c" and cl: "closed_files options F"
    and t: "t < length (tasks c)"
  obtains cur where "path (heap c (task_module (tasks c ! t))) \<in> F"
    "current_of options (path (heap c (task_module (tasks c ! t)))) = Some cur"
    "snd ` set cur \<subseteq> F" "[] \<notin> snd ` set cur"
proof -
  have tin: "tasks c ! t \<in> set (tasks c)" using t by simp
  from withinD(1) [OF w cold_inv_task(2) [OF inv tin]]
  have p: "path (heap c (task_module (tasks c ! t))) \<in> F" .
  from closed_filesD [OF cl p] obtain cur where
    cur: "current_of options (path (heap c (task_module (tasks c ! t)))) = Some cur"
      "snd ` set cur \<subseteq> F"
    by blast
  with closed_files_nonempty [OF cl] have "[] \<notin> snd ` set cur" by blast
  with p cur show ?thesis by (rule that)
qed

lemma within_resume:
  assumes inv: "cold_inv options c" and w: "within F c" and cl: "closed_files options F"
    and t: "t < length (tasks c)"
    and run: "processModule_resume n options t c = Inr c'"
  shows "within F c'"
proof -
  let ?u = "tasks c ! t"
  let ?r = "task_module ?u"
  have tin: "?u \<in> set (tasks c)" using t by simp
  note gi = cold_inv_graph [OF inv]
  have prev: "task_previous ?u = []" by (rule cold_inv_task(1) [OF inv tin])
  have rb: "?r < nextRef c" by (rule cold_inv_task_below [OF inv tin])
  from run obtain result :: TransformResult and current c2 where
    tr: "transform options (path (heap c ?r)) = Some result"
    and rs: "resolveDependencies (path (heap c ?r)) (tr_dependencies result) options = Some current"
    and c2: "remove_previous n ?r current (task_previous ?u)
           (c\<lparr>heap := (heap c)(?r := (heap c ?r)
                 \<lparr>dependencies := set_all current [],
                  module_output := tr_output result\<rparr>)\<rparr>) = Some c2"
    and c': "c' = (add_current options t ?r (task_previous ?u) current c2)
               \<lparr>tasks := (tasks (add_current options t ?r (task_previous ?u) current c2))
                  [t := (tasks (add_current options t ?r (task_previous ?u) current c2) ! t)
                         \<lparr>task_status := AwaitChildren\<rparr>]\<rparr>"
    by (elim processModule_resumeE) (rule that; assumption)
  let ?c1 = "c\<lparr>heap := (heap c)(?r := (heap c ?r)
                 \<lparr>dependencies := set_all current [],
                  module_output := tr_output result\<rparr>)\<rparr>"
  from c2 prev have c2_eq: "c2 = ?c1" by simp
  have cur: "current_of options (path (heap c ?r)) = Some current"
    by (simp add: current_of_def tr rs)
  from cold_task_file [OF inv w cl t] cur have pF: "path (heap c ?r) \<in> F"
    and curF: "snd ` set current \<subseteq> F"
    by auto
  have gi1: "graph_inv ?c1" by (rule graph_inv_frame [OF gi]) simp_all
  have w1: "within F ?c1" by (rule within_frame [OF w]) simp_all
  have "within F (add_current options t ?r [] current ?c1)"
    by (rule within_add_current [OF gi1 w1 _ _ curF closed_files_nonempty [OF cl]])
       (use rb pF in simp_all)
  then show ?thesis
    unfolding c' prev c2_eq by (rule within_frame) simp_all
qed

lemma cold_step:
  assumes inv: "cold_inv options c" and w: "within F c" and cl: "closed_files options F"
    and st: "step n options e c = Inr c'"
  shows "cold_inv options c'" and "within F c'"
proof -
  have "cold_inv options c' \<and> within F c'"
  proof (cases e)
    case (TransformDone t)
    with st have t: "t < length (tasks c)" and r: "processModule_resume n options t c = Inr c'"
      by (auto split: if_splits)
    have "cold_inv options c'"
    proof (rule cold_resume [OF inv _ t r])
      fix cur
      assume "current_of options (path (heap c (task_module (tasks c ! t)))) = Some cur"
      with cold_task_file [OF inv w cl t] show "[] \<notin> snd ` set cur" by auto
    qed
    with within_resume [OF inv w cl t r] show ?thesis by simp
  next
    case (Finish t)
    with st have t: "t < length (tasks c)" and s: "task_status (tasks c ! t) = AwaitChildren"
      and c': "c' = finish options t c"
      by (auto split: if_splits)
    have tin: "tasks c ! t \<in> set (tasks c)" using t by simp
    have "processed options c (task_module (tasks c ! t))"
      using cold_inv_task(3) [OF inv tin] s by simp
    then have "cold_inv options c'"
      by (intro cold_inv_status [OF inv t, where s = Done])
         (simp_all add: c' finish_def Let_def onDependencyAdded_def report_def)
    moreover have "within F c'"
      by (rule within_frame [OF w])
         (simp_all add: c' finish_def Let_def onDependencyAdded_def report_def)
    ultimately show ?thesis by simp
  qed
  then show "cold_inv options c'" and "within F c'" by simp_all
qed

lemma cold_run:
  assumes "cold_inv options c" and "within F c" and "closed_files options F"
    and "run n options es c = Inr c'"
  shows "cold_inv options c' \<and> within F c'"
  using assms
proof (induction es arbitrary: c)
  case Nil
  then show ?case by simp
next
  case (Cons e es)
  from Cons.prems(4) obtain c1 where
    1: "step n options e c = Inr c1" and 2: "run n options es c1 = Inr c'"
    by (auto split: sum.splits)
  from Cons.IH [OF cold_step [OF Cons.prems(1,2,3) 1] Cons.prems(3) 2] show ?case .
qed

section \<open>The start of a cold start\<close>

lemma createModule_fields:
  "graph_get (snd (createModule p c)) k = (if k = p then Some (nextRef c) else graph_get c k)"
  "heap (snd (createModule p c)) r =
     (if r = nextRef c
      then \<lparr>dependencies = [], inverseDependencies = [], path = p,
            module_output = \<lparr>code = [], sourcemap = [], source = [], otype = module\<rparr>\<rparr>
      else heap c r)"
  "entryPoints (graph (snd (createModule p c))) = entryPoints (graph c)"
  by (simp_all add: createModule_def Let_def update_conv')

lemma create_entries_fresh:
  assumes "graph_inv c"
    and "\<forall>k r. graph_get c k = Some r \<longrightarrow>
           k \<in> K \<and> dependencies (heap c r) = [] \<and> inverseDependencies (heap c r) = []"
    and "[] \<notin> set es"
  shows "graph_inv (create_entries es c)
    \<and> (\<forall>k r. graph_get (create_entries es c) k = Some r \<longrightarrow>
          k \<in> K \<union> set es \<and> dependencies (heap (create_entries es c) r) = []
          \<and> inverseDependencies (heap (create_entries es c) r) = [])
    \<and> (\<forall>k. k \<in> set es \<or> graph_get c k \<noteq> None \<longrightarrow> graph_get (create_entries es c) k \<noteq> None)"
  using assms
proof (induction es arbitrary: c K)
  case Nil
  then show ?case by (simp add: create_entries_def)
next
  case (Cons e es)
  let ?c1 = "snd (createModule e c)"
  from Cons.prems(3) have e: "e \<noteq> []" and es: "[] \<notin> set es" by auto
  have gi1: "graph_inv ?c1" by (rule graph_inv_createModule [OF Cons.prems(1) e])
  have fr1: "\<forall>k r. graph_get ?c1 k = Some r \<longrightarrow>
           k \<in> insert e K \<and> dependencies (heap ?c1 r) = []
           \<and> inverseDependencies (heap ?c1 r) = []"
  proof (intro allI impI)
    fix k r assume kr: "graph_get ?c1 k = Some r"
    show "k \<in> insert e K \<and> dependencies (heap ?c1 r) = []
           \<and> inverseDependencies (heap ?c1 r) = []"
    proof (cases "k = e")
      case True
      with kr show ?thesis by (simp add: createModule_fields)
    next
      case False
      with kr have kr0: "graph_get c k = Some r" by (simp add: createModule_fields)
      from graph_inv_below [OF Cons.prems(1) kr0] have "r \<noteq> nextRef c" by simp
      with Cons.prems(2) kr0 show ?thesis by (simp add: createModule_fields)
    qed
  qed
  have eq: "create_entries (e # es) c = create_entries es ?c1"
    by (simp add: create_entries_def)
  from Cons.IH [OF gi1 fr1 es] show ?case
    unfolding eq by (auto simp add: createModule_fields split: if_splits)
qed

lemma cold_start_paths:
  assumes "graph_inv c"
    and "\<forall>k r. graph_get c k = Some r \<longrightarrow>
           dependencies (heap c r) = [] \<and> inverseDependencies (heap c r) = []"
    and "\<forall>u \<in> set (tasks c). task_previous u = []
           \<and> graph_get c (path (heap c (task_module u))) = Some (task_module u)
           \<and> task_status u = AwaitTransform"
    and "\<forall>k r. graph_get c k = Some r \<longrightarrow> r \<in> task_module ` set (tasks c) \<or> k \<in> set ps"
    and "\<forall>e \<in> set (entryPoints (graph c)). graph_get c e \<noteq> None"
  shows "cold_inv options (start_paths options ps c)"
  using assms
proof (induction ps arbitrary: c)
  case Nil
  show ?case
  proof (rule cold_invI)
    show "graph_inv (start_paths options [] c)" using Nil.prems(1) by simp
  next
    fix u assume "u \<in> set (tasks (start_paths options [] c))"
    then have u: "u \<in> set (tasks c)" by simp
    with Nil.prems(3) show "task_previous u = []"
      "graph_get (start_paths options [] c)
         (path (heap (start_paths options [] c) (task_module u))) = Some (task_module u)"
      by simp_all
    from Nil.prems(3) u
    show "processed options (start_paths options [] c) (task_module u)"
      if "task_status u \<noteq> AwaitTransform"
      using that by simp
  next
    fix k r assume kr: "graph_get (start_paths options [] c) k = Some r"
    with Nil.prems(4) show "r \<in> task_module ` set (tasks (start_paths options [] c))"
      by simp
    fix x assume "x \<in> set (inverseDependencies (heap (start_paths options [] c) r))"
    with Nil.prems(2) kr show "\<exists>cur. current_of options x = Some cur \<and> k \<in> snd ` set cur"
      by simp
  next
    fix e assume "e \<in> set (entryPoints (graph (start_paths options [] c)))"
    with Nil.prems(5) show "graph_get (start_paths options [] c) e \<noteq> None" by simp
  qed
next
  case (Cons p ps)
  show ?case
  proof (cases "graph_get c p")
    case None
    have "\<forall>k r. graph_get c k = Some r \<longrightarrow> r \<in> task_module ` set (tasks c) \<or> k \<in> set ps"
    proof (intro allI impI)
      fix k r assume kr: "graph_get c k = Some r"
      with None have "k \<noteq> p" by auto
      moreover from Cons.prems(4) kr have "r \<in> task_module ` set (tasks c) \<or> k \<in> set (p # ps)"
        by blast
      ultimately show "r \<in> task_module ` set (tasks c) \<or> k \<in> set ps" by simp
    qed
    from Cons.IH [OF Cons.prems(1,2,3) this Cons.prems(5)] None show ?thesis by simp
  next
    case (Some r)
    let ?c0 = "c\<lparr>delta := (delta c)\<lparr>modified :=
                     AList.update (path (heap c r)) r (modified (delta c))\<rparr>\<rparr>"
    let ?c1 = "traverseDependenciesForSingleFile options r ?c0"
    have f: "graph ?c1 = graph c" "heap ?c1 = heap c" "nextRef ?c1 = nextRef c"
      "tasks ?c1 = tasks c @ [\<lparr>task_module = r, task_previous = dependencies (heap c r),
          task_root = length (tasks c), task_parent = None, task_status = AwaitTransform\<rparr>]"
      by (simp_all add: traverseDependenciesForSingleFile_def Let_def processModule_start_def
          report_def)
    have pr: "path (heap c r) = p" by (rule graph_inv_path [OF Cons.prems(1) Some])
    have dr: "dependencies (heap c r) = []" using Cons.prems(2) Some by simp
    have 1: "graph_inv ?c1" by (rule graph_inv_frame [OF Cons.prems(1)]) (simp_all add: f)
    have 2: "\<forall>k r. graph_get ?c1 k = Some r \<longrightarrow>
           dependencies (heap ?c1 r) = [] \<and> inverseDependencies (heap ?c1 r) = []"
      using Cons.prems(2) by (simp add: f)
    have 3: "\<forall>u \<in> set (tasks ?c1). task_previous u = []
           \<and> graph_get ?c1 (path (heap ?c1 (task_module u))) = Some (task_module u)
           \<and> task_status u = AwaitTransform"
      using Cons.prems(3) Some pr dr by (auto simp add: f)
    have 4: "\<forall>k q. graph_get ?c1 k = Some q \<longrightarrow> q \<in> task_module ` set (tasks ?c1) \<or> k \<in> set ps"
    proof (intro allI impI)
      fix k q assume "graph_get ?c1 k = Some q"
      then have kq: "graph_get c k = Some q" by (simp add: f)
      show "q \<in> task_module ` set (tasks ?c1) \<or> k \<in> set ps"
      proof (cases "k = p")
        case True
        with kq Some have "q = r" by simp
        then show ?thesis by (simp add: f)
      next
        case False
        with Cons.prems(4) kq show ?thesis by (auto simp add: f)
      qed
    qed
    have 5: "\<forall>e \<in> set (entryPoints (graph ?c1)). graph_get ?c1 e \<noteq> None"
      using Cons.prems(5) by (simp add: f)
    from Cons.IH [OF 1 2 3 4 5] Some show ?thesis by simp
  qed
qed

lemma new_pass_fields:
  "graph (new_pass c) = graph c" "heap (new_pass c) = heap c"
  "nextRef (new_pass c) = nextRef c" "tasks (new_pass c) = []"
  by (simp_all add: new_pass_def)

lemma cold_after_start:
  assumes 1: "graph_inv c"
    and 2: "\<And>k r. graph_get c k = Some r \<Longrightarrow>
          k \<in> set es \<and> dependencies (heap c r) = [] \<and> inverseDependencies (heap c r) = []"
    and 3: "\<And>e. e \<in> set (entryPoints (graph c)) \<Longrightarrow> graph_get c e \<noteq> None"
  shows "cold_inv options (start_paths options es (new_pass c))"
proof (rule cold_start_paths)
  show "graph_inv (new_pass c)"
    by (rule graph_inv_frame [OF 1]) (simp_all only: new_pass_fields)
  show "\<forall>k r. graph_get (new_pass c) k = Some r \<longrightarrow>
           dependencies (heap (new_pass c) r) = []
           \<and> inverseDependencies (heap (new_pass c) r) = []"
    unfolding new_pass_fields using 2 by blast
  show "\<forall>u \<in> set (tasks (new_pass c)). task_previous u = []
           \<and> graph_get (new_pass c) (path (heap (new_pass c) (task_module u)))
               = Some (task_module u)
           \<and> task_status u = AwaitTransform"
    unfolding new_pass_fields by simp
  show "\<forall>k r. graph_get (new_pass c) k = Some r \<longrightarrow>
      r \<in> task_module ` set (tasks (new_pass c)) \<or> k \<in> set es"
    unfolding new_pass_fields using 2 by blast
  show "\<forall>e \<in> set (entryPoints (graph (new_pass c))). graph_get (new_pass c) e \<noteq> None"
    unfolding new_pass_fields using 3 by blast
qed

lemma cold_entries:
  assumes empty: "graph_dependencies (graph c) = []"
    and es: "[] \<notin> set (entryPoints (graph c))"
  shows "graph_inv (create_entries (entryPoints (graph c)) c)"
    and "graph_get (create_entries (entryPoints (graph c)) c) k = Some r \<Longrightarrow>
          k \<in> set (entryPoints (graph c))
          \<and> dependencies (heap (create_entries (entryPoints (graph c)) c) r) = []
          \<and> inverseDependencies (heap (create_entries (entryPoints (graph c)) c) r) = []"
    and "e \<in> set (entryPoints (graph (create_entries (entryPoints (graph c)) c))) \<Longrightarrow>
          graph_get (create_entries (entryPoints (graph c)) c) e \<noteq> None"
proof -
  let ?c1 = "create_entries (entryPoints (graph c)) c"
  have gi: "graph_inv c" by (simp add: graph_inv_def paths_agree_def empty)
  have "\<forall>k r. graph_get c k = Some r \<longrightarrow>
           k \<in> {} \<and> dependencies (heap c r) = [] \<and> inverseDependencies (heap c r) = []"
    by (simp add: empty)
  note F = create_entries_fresh [OF gi this es]
  from F show "graph_inv ?c1" by (rule conjunct1)
  from conjunct1 [OF conjunct2 [OF F]]
  have 2: "\<forall>k r. graph_get ?c1 k = Some r \<longrightarrow>
          k \<in> {} \<union> set (entryPoints (graph c))
          \<and> dependencies (heap ?c1 r) = [] \<and> inverseDependencies (heap ?c1 r) = []" .
  show "k \<in> set (entryPoints (graph c))
          \<and> dependencies (heap ?c1 r) = [] \<and> inverseDependencies (heap ?c1 r) = []"
    if "graph_get ?c1 k = Some r"
    using 2 [rule_format, OF that] by simp
  from conjunct2 [OF conjunct2 [OF F]]
  have 3: "\<forall>k. k \<in> set (entryPoints (graph c)) \<or> graph_get c k \<noteq> None \<longrightarrow>
      graph_get ?c1 k \<noteq> None" .
  show "graph_get ?c1 e \<noteq> None" if "e \<in> set (entryPoints (graph ?c1))"
  proof -
    from that have "e \<in> set (entryPoints (graph c))"
      by (simp only: create_entries_entryPoints)
    with 3 show ?thesis by blast
  qed
qed

lemma cold_start:
  assumes empty: "graph_dependencies (graph c) = []"
    and es: "set (entryPoints (graph c)) \<subseteq> F" and ne: "[] \<notin> F"
  shows "cold_inv options
           (start_paths options (entryPoints (graph c))
              (new_pass (create_entries (entryPoints (graph c)) c)))"
    and "within F
           (start_paths options (entryPoints (graph c))
              (new_pass (create_entries (entryPoints (graph c)) c)))"
    and "pass_inv options
           (start_paths options (entryPoints (graph c))
              (new_pass (create_entries (entryPoints (graph c)) c)))"
proof -
  let ?es = "entryPoints (graph c)"
  let ?c1 = "create_entries ?es c"
  from es ne have es': "[] \<notin> set ?es" by blast
  note E = cold_entries [OF empty es']
  show "cold_inv options (start_paths options ?es (new_pass ?c1))"
    by (rule cold_after_start [OF E])
  have "within F ?c1"
    unfolding within_def using E(2) es by auto
  then show "within F (start_paths options ?es (new_pass ?c1))"
    by (rule within_frame) (simp_all add: start_paths_fields new_pass_fields)
  show "pass_inv options (start_paths options ?es (new_pass ?c1))"
    by (rule pass_inv_start_paths [OF pass_inv_new_pass])
qed

section \<open>The graph at the end of a cold start\<close>

lemma update_fresh: "k \<notin> fst ` set al \<Longrightarrow> AList.update k v al = al @ [(k, v)]"
  by (induction al) auto

lemma set_all_distinct: "distinct (map fst (acc @ xs)) \<Longrightarrow> set_all xs acc = acc @ xs"
  unfolding set_all_def
proof (induction xs arbitrary: acc)
  case Nil
  show ?case by simp
next
  case (Cons x xs)
  obtain k v where x: "x = (k, v)" by (cases x)
  from Cons.prems x have k: "k \<notin> fst ` set acc" by auto
  from Cons.prems x have "distinct (map fst ((acc @ [(k, v)]) @ xs))" by simp
  from Cons.IH [OF this] show ?case by (simp add: x update_fresh [OF k])
qed

lemma distinct_set_all: "distinct (map fst acc) \<Longrightarrow> distinct (map fst (set_all xs acc))"
  unfolding set_all_def
  by (induction xs arbitrary: acc) (auto simp add: distinct_update)

lemma current_of_set_all:
  assumes "current_of options p = Some cur"
  shows "set_all cur [] = cur"
proof -
  from assms obtain ps where "cur = set_all ps []"
    by (auto simp add: current_of_def resolveDependencies_def split: option.splits)
  then have "distinct (map fst cur)" using distinct_set_all [of "[]" ps] by simp
  then show ?thesis using set_all_distinct [of "[]" cur] by simp
qed

lemma imported_closed:
  assumes cl: "closed_files options F" and es: "set es \<subseteq> F"
  shows "imported options es \<subseteq> F" and "closed_files options (imported options es)"
proof -
  show sub: "imported options es \<subseteq> F"
  proof
    fix p assume "p \<in> imported options es"
    then show "p \<in> F"
    proof induction
      case (entry_file e)
      with es show ?case by blast
    next
      case (dep_file p cur d)
      from closed_filesD [OF cl dep_file.IH] dep_file.hyps(2,3) show ?case by auto
    qed
  qed
  show "closed_files options (imported options es)"
    unfolding closed_files_def
  proof (intro conjI ballI)
    from closed_files_nonempty [OF cl] sub show "[] \<notin> imported options es" by blast
  next
    fix p assume p: "p \<in> imported options es"
    with sub have "p \<in> F" by blast
    from closed_filesD [OF cl this] obtain cur where cur: "current_of options p = Some cur"
      by blast
    have "snd ` set cur \<subseteq> imported options es"
      using imported.dep_file [OF p cur] by blast
    with cur show "case current_of options p of None \<Rightarrow> False
                   | Some cur \<Rightarrow> snd ` set cur \<subseteq> imported options es"
      by simp
  qed
qed

lemma cold_complete:
  assumes inv: "cold_inv options c" and pi: "pass_inv options c" and fin: "roots_done c"
    and w: "within (imported options (entryPoints (graph c))) c"
  shows "graph_get c k \<noteq> None \<longleftrightarrow> k \<in> imported options (entryPoints (graph c))"
    and "graph_get c k = Some r \<Longrightarrow>
           path (heap c r) = k \<and> current_of options k = Some (dependencies (heap c r))
           \<and> set (inverseDependencies (heap c r)) =
               {x \<in> imported options (entryPoints (graph c)).
                  \<exists>cur. current_of options x = Some cur \<and> k \<in> snd ` set cur}"
    and "graph_get c k = Some r \<Longrightarrow> r \<in> reach c"
proof -
  let ?I = "imported options (entryPoints (graph c))"
  note gi = cold_inv_graph [OF inv]
  have proc: "current_of options k = Some (dependencies (heap c r))
      \<and> (\<forall>d \<in> snd ` set (dependencies (heap c r)). recorded c k d)"
    if kr: "graph_get c k = Some r" for k r
  proof -
    from cold_final [OF inv pi fin kr] obtain cur where
      cur: "current_of options (path (heap c r)) = Some cur"
        "dependencies (heap c r) = set_all cur []"
        "\<forall>d \<in> snd ` set cur. recorded c (path (heap c r)) d"
      by (auto simp add: processed_def)
    from cur(1,2) have "dependencies (heap c r) = cur" by (simp add: current_of_set_all)
    with cur graph_inv_path [OF gi kr] show ?thesis by simp
  qed
  have all: "\<exists>r. graph_get c p = Some r \<and> r \<in> reach c" if "p \<in> ?I" for p
    using that
  proof induction
    case (entry_file e)
    from cold_inv_entry [OF inv entry_file] obtain r where r: "graph_get c e = Some r"
      by auto
    from reach.entry [OF entry_file r] r show ?case by blast
  next
    case (dep_file p cur d)
    from dep_file.IH obtain r where r: "graph_get c p = Some r" "r \<in> reach c" by blast
    from proc [OF r(1)] dep_file.hyps(2) have deps: "dependencies (heap c r) = cur"
      and rec: "\<forall>d \<in> snd ` set cur. recorded c p d"
      by simp_all
    from rec dep_file.hyps(3) obtain q where q: "graph_get c d = Some q"
      by (auto simp add: recorded_def)
    from dep_file.hyps(3) deps have "d \<in> snd ` set (dependencies (heap c r))" by simp
    from reach.dep [OF r(2) this q] q show ?case by blast
  qed
  show keys: "graph_get c k \<noteq> None \<longleftrightarrow> k \<in> ?I" for k
  proof
    assume "graph_get c k \<noteq> None"
    then obtain r where "graph_get c k = Some r" by auto
    from withinD(1) [OF w this] show "k \<in> ?I" .
  next
    assume "k \<in> ?I"
    from all [OF this] show "graph_get c k \<noteq> None" by auto
  qed
  show "r \<in> reach c" if kr: "graph_get c k = Some r"
  proof -
    from withinD(1) [OF w kr] have "k \<in> ?I" .
    from all [OF this] kr show ?thesis by auto
  qed
  show "path (heap c r) = k \<and> current_of options k = Some (dependencies (heap c r))
           \<and> set (inverseDependencies (heap c r)) =
               {x \<in> ?I. \<exists>cur. current_of options x = Some cur \<and> k \<in> snd ` set cur}"
    if kr: "graph_get c k = Some r"
  proof (intro conjI set_eqI iffI)
    show "path (heap c r) = k" by (rule graph_inv_path [OF gi kr])
    from proc [OF kr] show "current_of options k = Some (dependencies (heap c r))" by simp
  next
    fix x assume x: "x \<in> set (inverseDependencies (heap c r))"
    from withinD(2) [OF w kr] x have "x \<in> ?I" by blast
    with cold_inv_module(2) [OF inv kr x]
    show "x \<in> {x \<in> ?I. \<exists>cur. current_of options x = Some cur \<and> k \<in> snd ` set cur}"
      by simp
  next
    fix x assume "x \<in> {x \<in> ?I. \<exists>cur. current_of options x = Some cur \<and> k \<in> snd ` set cur}"
    then obtain cur where x: "x \<in> ?I" and cur: "current_of options x = Some cur"
      and k: "k \<in> snd ` set cur"
      by auto
    from all [OF x] obtain rx where rx: "graph_get c x = Some rx" by blast
    from proc [OF rx] cur k have "recorded c x k" by auto
    with kr show "x \<in> set (inverseDependencies (heap c r))"
      by (auto simp add: recorded_def)
  qed
qed

section \<open>\<open>reorderDependencies\<close> returns\<close>

lemma reorderDependencies_each_returns:
  assumes keyed: "keyed h ds"
  shows "card (fst ` set ds - fst ` set ord) < n \<Longrightarrow> fst ` set ord \<subseteq> fst ` set ds \<Longrightarrow>
    \<exists>ord'. reorderDependencies_each n h ps ds ord = Some ord'
       \<and> fst ` set ord \<subseteq> fst ` set ord' \<and> fst ` set ord' \<subseteq> fst ` set ds"
proof (induction n arbitrary: ps ord)
  case 0
  then show ?case by simp
next
  case (Suc n)
  let ?D = "fst ` set ds"
  from Suc.prems show ?case
  proof (induction ps arbitrary: ord)
    case Nil
    then show ?case by simp
  next
    case (Cons p ps)
    note small = Cons.prems(1) and sub = Cons.prems(2)
    show ?case
    proof (cases "map_of ds p")
      case None
      with Cons.IH [OF small sub] show ?thesis by simp
    next
      case (Some dep)
      with keyed have pd: "path (h dep) = p" "p \<noteq> []" by (auto simp add: keyed_def)
      from Some have pD: "p \<in> ?D" by (auto dest!: map_of_SomeD simp add: rev_image_eqI)
      have "\<exists>ord1. reorderDependencies (Suc n) h (Mod dep) ds ord = Some ord1
          \<and> fst ` set ord \<subseteq> fst ` set ord1 \<and> fst ` set ord1 \<subseteq> ?D"
      proof (cases "map_has ord p")
        case True
        with pd sub show ?thesis by simp
      next
        case False
        then have pK: "p \<notin> fst ` set ord" by (simp add: map_has_keys)
        let ?ord1 = "AList.update p dep ord"
        have K1: "fst ` set ?ord1 = insert p (fst ` set ord)"
          using dom_update [of p dep ord] by simp
        have eq: "?D - fst ` set ?ord1 = (?D - fst ` set ord) - {p}" unfolding K1 by blast
        have "p \<in> ?D - fst ` set ord" using pD pK by simp
        then have "card ((?D - fst ` set ord) - {p}) < card (?D - fst ` set ord)"
          by (intro card_Diff1_less) simp_all
        then have "card (?D - fst ` set ?ord1) < card (?D - fst ` set ord)"
          by (simp only: eq)
        with small have 1: "card (?D - fst ` set ?ord1) < n" by simp
        have 2: "fst ` set ?ord1 \<subseteq> ?D" unfolding K1 using pD sub by simp
        from Suc.IH [OF 1 2, of "map snd (dependencies (h dep))"] obtain ord' where
          "reorderDependencies_each n h (map snd (dependencies (h dep))) ds ?ord1 = Some ord'"
          "fst ` set ?ord1 \<subseteq> fst ` set ord'" "fst ` set ord' \<subseteq> ?D"
          by blast
        with False pd K1 show ?thesis by auto
      qed
      then obtain ord1 where
        1: "reorderDependencies (Suc n) h (Mod dep) ds ord = Some ord1"
        and 2: "fst ` set ord \<subseteq> fst ` set ord1" and 3: "fst ` set ord1 \<subseteq> ?D"
        by blast
      from 2 have "?D - fst ` set ord1 \<subseteq> ?D - fst ` set ord" by blast
      then have "card (?D - fst ` set ord1) \<le> card (?D - fst ` set ord)"
        by (intro card_mono) simp_all
      with small have small1: "card (?D - fst ` set ord1) < Suc n" by simp
      from Cons.IH [OF small1 3] obtain ord' where
        "reorderDependencies_each (Suc n) h ps ds ord1 = Some ord'"
        "fst ` set ord1 \<subseteq> fst ` set ord'" "fst ` set ord' \<subseteq> ?D"
        by blast
      with Some 1 2 show ?thesis by auto
    qed
  qed
qed

lemma reorderGraph_returns:
  assumes inv: "graph_inv c"
    and n: "card (fst ` set (graph_dependencies (graph c))) + 2 \<le> n"
  shows "\<exists>c'. reorderGraph n c = Some c'"
proof -
  from inv have pa: "paths_agree c" and ne: "graph_get c [] = None"
    by (simp_all add: graph_inv_def)
  have keyed: "keyed (heap c) (graph_dependencies (graph c))"
    unfolding keyed_def using paths_agree_get [OF pa] ne by auto
  from n obtain m where m: "n = Suc m"
    and small: "card (fst ` set (graph_dependencies (graph c))
                      - fst ` set ([] :: (string \<times> ref) list)) < m"
    by (cases n) auto
  from reorderDependencies_each_returns [OF keyed small,
      of "map snd (set_all (map (\<lambda>e. (e, e)) (entryPoints (graph c))) [])"]
  obtain ord' where
    "reorderDependencies_each m (heap c)
       (map snd (set_all (map (\<lambda>e. (e, e)) (entryPoints (graph c))) []))
       (graph_dependencies (graph c)) [] = Some ord'"
    by auto
  then show ?thesis by (simp add: reorderGraph_def m)
qed

section \<open>Every step brings the pass nearer to its end\<close>

lemma weight_update:
  "t < length ts \<Longrightarrow>
     sum_list (map (weight \<circ> task_status) (ts[t := (ts ! t)\<lparr>task_status := s\<rparr>]))
       + weight (task_status (ts ! t))
     = sum_list (map (weight \<circ> task_status) ts) + weight s"
proof (induction ts arbitrary: t)
  case Nil
  then show ?case by simp
next
  case (Cons u ts)
  then show ?case by (cases t) simp_all
qed

lemma remaining_frame:
  "graph c' = graph c \<Longrightarrow> tasks c' = tasks c \<Longrightarrow> remaining F c' = remaining F c"
  by (simp add: remaining_def)

lemma remaining_addDependency:
  assumes fin: "finite F" and p: "p \<in> F"
  shows "remaining F (addDependency options t r p c) = remaining F c"
proof (cases "graph_get c p")
  case (Some q)
  show ?thesis
    unfolding addDependency_existing_eq [OF Some]
    by (rule remaining_frame) (simp_all add: inverse_add_def)
next
  case None
  note new = addDependency_new [OF None, of options t r]
  let ?K = "fst ` set (graph_dependencies (graph c))"
  from None have pK: "p \<notin> ?K" by (simp add: map_of_eq_None_iff)
  have K': "fst ` set (AList.update p (nextRef c) (graph_dependencies (graph c))) = insert p ?K"
    using dom_update [of p "nextRef c" "graph_dependencies (graph c)"] by simp
  have eq: "F - insert p ?K = (F - ?K) - {p}" by blast
  have "p \<in> F - ?K" using p pK by simp
  moreover have "finite (F - ?K)" using fin by simp
  ultimately have "Suc (card ((F - ?K) - {p})) = card (F - ?K)"
    by (intro card_Suc_Diff1)
  then show ?thesis
    unfolding remaining_def new K' eq by simp
qed

lemma remaining_add_current:
  assumes "finite F" and "snd ` set entries \<subseteq> F"
  shows "remaining F (add_current options t r [] entries c) = remaining F c"
  using assms(2)
proof (induction entries arbitrary: c)
  case Nil
  show ?case by simp
next
  case (Cons e entries)
  obtain rel abs where e: "e = (rel, abs)" by (cases e)
  with Cons.prems have abs: "abs \<in> F" and rest: "snd ` set entries \<subseteq> F" by auto
  from Cons.IH [OF rest, of "addDependency options t r abs c"]
    remaining_addDependency [OF assms(1) abs, of options t r c]
  show ?case by (simp add: e)
qed

lemma remaining_status:
  assumes "t < length (tasks c)" and "graph c' = graph c"
    and "tasks c' = (tasks c)[t := (tasks c ! t)\<lparr>task_status := s\<rparr>]"
  shows "remaining F c' + weight (task_status (tasks c ! t)) = remaining F c + weight s"
  using weight_update [OF assms(1), of s] by (simp add: remaining_def assms(2,3))

lemma processModule_resume_fresh:
  assumes tr: "transform options (path (heap c (task_module (tasks c ! t)))) = Some result"
    and rs: "resolveDependencies (path (heap c (task_module (tasks c ! t))))
               (tr_dependencies result) options = Some cur"
    and prev: "task_previous (tasks c ! t) = []"
    and c1: "c1 = c\<lparr>heap := (heap c)((task_module (tasks c ! t)) :=
                (heap c (task_module (tasks c ! t)))
                 \<lparr>dependencies := set_all cur [], module_output := tr_output result\<rparr>)\<rparr>"
    and c3: "c3 = add_current options t (task_module (tasks c ! t)) [] cur c1"
  shows "processModule_resume n options t c =
           Inr (c3\<lparr>tasks := (tasks c3)[t := (tasks c3 ! t)\<lparr>task_status := AwaitChildren\<rparr>]\<rparr>)"
  by (simp add: processModule_resume_def Let_def tr rs prev c1 c3)

lemma resume_returns:
  assumes inv: "cold_inv options c" and w: "within F c" and cl: "closed_files options F"
    and pi: "pass_inv options c"
    and fin: "finite F" and t: "t < length (tasks c)"
    and st: "task_status (tasks c ! t) = AwaitTransform"
  shows "\<exists>c'. processModule_resume n options t c = Inr c' \<and> remaining F c' < remaining F c"
proof -
  let ?u = "tasks c ! t"
  let ?r = "task_module ?u"
  have tin: "?u \<in> set (tasks c)" using t by simp
  have prev: "task_previous ?u = []" by (rule cold_inv_task(1) [OF inv tin])
  obtain cur where pF: "path (heap c ?r) \<in> F"
    and cur: "current_of options (path (heap c ?r)) = Some cur" "snd ` set cur \<subseteq> F"
      "[] \<notin> snd ` set cur"
    by (rule cold_task_file [OF inv w cl t])
  from cur(1) obtain result where
    tr: "transform options (path (heap c ?r)) = Some result"
    and rs: "resolveDependencies (path (heap c ?r)) (tr_dependencies result) options = Some cur"
    by (auto simp add: current_of_def split: option.splits)
  define c1 where "c1 = c\<lparr>heap := (heap c)(?r := (heap c ?r)
                 \<lparr>dependencies := set_all cur [], module_output := tr_output result\<rparr>)\<rparr>"
  define c3 where "c3 = add_current options t ?r [] cur c1"
  define c' where
    "c' = c3\<lparr>tasks := (tasks c3)[t := (tasks c3 ! t)\<lparr>task_status := AwaitChildren\<rparr>]\<rparr>"
  have run: "processModule_resume n options t c = Inr c'"
    unfolding c'_def by (rule processModule_resume_fresh [OF tr rs prev c1_def c3_def])
  have f1: "tasks c1 = tasks c" "graph c1 = graph c" "counters c1 = counters c"
    "progress c1 = progress c"
    by (simp_all add: c1_def)
  have pi1: "pass_inv options c1" using pi by (simp add: pass_inv_def f1)
  have r1: "remaining F c1 = remaining F c" by (rule remaining_frame [OF f1(2,1)])
  have r3: "remaining F c3 = remaining F c1"
    unfolding c3_def by (rule remaining_add_current [OF fin cur(2)])
  have t1: "t < length (tasks c1)" "task_status (tasks c1 ! t) \<noteq> Done"
    using t st by (simp_all add: f1)
  from pass_inv_add_current [OF pi1 t1, of ?r "[]" cur]
  have len: "length (tasks c1) \<le> length (tasks c3)" and nth: "tasks c3 ! t = tasks c1 ! t"
    by (simp_all add: c3_def)
  have t3: "t < length (tasks c3)" using t len by (simp add: f1)
  have st3: "task_status (tasks c3 ! t) = AwaitTransform" using nth st by (simp add: f1)
  have "remaining F c' + weight (task_status (tasks c3 ! t)) = remaining F c3 + weight AwaitChildren"
    by (rule remaining_status [OF t3]) (simp_all add: c'_def)
  then have "remaining F c' + 1 = remaining F c3" by (simp add: st3)
  with r1 r3 have "remaining F c' < remaining F c" by linarith
  with run show ?thesis by blast
qed

lemma finish_returns:
  assumes t: "t < length (tasks c)" and st: "task_status (tasks c ! t) = AwaitChildren"
  shows "remaining F (finish options t c) < remaining F c"
proof -
  have "remaining F (finish options t c) + weight (task_status (tasks c ! t))
      = remaining F c + weight Done"
    by (rule remaining_status [OF t])
       (simp_all add: finish_def Let_def onDependencyAdded_def report_def)
  then show ?thesis by (simp add: st)
qed

lemma cold_progress:
  assumes inv: "cold_inv options c" and w: "within F c" and cl: "closed_files options F"
    and pi: "pass_inv options c" and fin: "finite F" and nd: "\<not> roots_done c"
  shows "\<exists>e c'. step n options e c = Inr c' \<and> remaining F c' < remaining F c"
proof (cases "\<exists>t < length (tasks c). task_status (tasks c ! t) = AwaitTransform")
  case True
  then obtain t where t: "t < length (tasks c)" "task_status (tasks c ! t) = AwaitTransform"
    by blast
  from resume_returns [OF inv w cl pi fin t, of n] obtain c' where
    "processModule_resume n options t c = Inr c'" "remaining F c' < remaining F c"
    by blast
  with t have "step n options (TransformDone t) c = Inr c' \<and> remaining F c' < remaining F c"
    by simp
  then show ?thesis by blast
next
  case False
  define P where "P j \<longleftrightarrow> j < length (tasks c) \<and> task_status (tasks c ! j) \<noteq> Done" for j
  from nd obtain u where "u \<in> set (tasks c)" "task_status u \<noteq> Done"
    by (auto simp add: roots_done_def list_all_iff)
  then obtain t0 where "P t0" by (auto simp add: in_set_conv_nth P_def)
  moreover have "\<forall>y. P y \<longrightarrow> y < length (tasks c)" by (simp add: P_def)
  ultimately have "\<exists>x. P x \<and> (\<forall>y. P y \<longrightarrow> y \<le> x)"
    by (rule ex_has_greatest_nat [where f = "\<lambda>x. x"])
  then obtain t where t: "P t" and greatest: "\<And>y. P y \<Longrightarrow> y \<le> t" by blast
  from t have tl: "t < length (tasks c)" and td: "task_status (tasks c ! t) \<noteq> Done"
    by (simp_all add: P_def)
  from False tl have "task_status (tasks c ! t) \<noteq> AwaitTransform" by blast
  with td have st: "task_status (tasks c ! t) = AwaitChildren"
    by (cases "task_status (tasks c ! t)") simp_all
  from pi have par: "parents_ok (tasks c)" by (simp add: pass_inv_def)
  have ch: "children_done t c"
    unfolding children_done_def list_all_length
  proof (intro allI impI)
    fix j assume j: "j < length (tasks c)" and p: "task_parent (tasks c ! j) = Some t"
    from par j p have "t < j" by (simp add: parents_ok_def)
    show "task_status (tasks c ! j) = Done"
    proof (rule ccontr)
      assume "task_status (tasks c ! j) \<noteq> Done"
      with j have "P j" by (simp add: P_def)
      from greatest [OF this] \<open>t < j\<close> show False by simp
    qed
  qed
  from tl st ch have "step n options (Finish t) c = Inr (finish options t c)" by simp
  with finish_returns [OF tl st, of F options] show ?thesis by blast
qed

lemma run_append:
  "run n options (es @ es') c =
     (case run n options es c of Inl f \<Rightarrow> Inl f | Inr c' \<Rightarrow> run n options es' c')"
  by (induction es arbitrary: c) (simp_all split: sum.splits)

lemma cold_completes:
  assumes cl: "closed_files options F" and fin: "finite F"
  shows "cold_inv options c \<Longrightarrow> within F c \<Longrightarrow> pass_inv options c \<Longrightarrow>
    \<exists>es c'. run n options es c = Inr c' \<and> roots_done c'"
proof (induction "remaining F c" arbitrary: c rule: less_induct)
  case less
  show ?case
  proof (cases "roots_done c")
    case True
    then have "run n options [] c = Inr c \<and> roots_done c" by simp
    then show ?thesis by blast
  next
    case False
    from cold_progress [OF less.prems(1,2) cl less.prems(3) fin False, of n] obtain e c1 where
      st: "step n options e c = Inr c1" and small: "remaining F c1 < remaining F c"
      by blast
    note inv1 = cold_step [OF less.prems(1,2) cl st]
    note pi1 = pass_inv_step [OF less.prems(3) st]
    from less.hyps [OF small inv1 pi1] obtain es c' where
      "run n options es c1 = Inr c'" "roots_done c'"
      by blast
    with st have "run n options (e # es) c = Inr c' \<and> roots_done c'" by simp
    then show ?thesis by blast
  qed
qed

section \<open>The cold start as a whole\<close>

lemma entryPoints_addDependency:
  "entryPoints (graph (addDependency options t r p c)) = entryPoints (graph c)"
  by (simp add: addDependency_def inverse_add_def createModule_def Let_def onDependencyAdd_def
      report_def processModule_start_def split: option.splits)

lemma entryPoints_add_current:
  "entryPoints (graph (add_current options t r prev es c)) = entryPoints (graph c)"
  by (induction es arbitrary: c) (auto simp add: entryPoints_addDependency)

lemma entryPoints_remove_previous:
  "remove_previous n r current previous c = Some c' \<Longrightarrow>
     entryPoints (graph c') = entryPoints (graph c)"
proof (induction previous arbitrary: c)
  case Nil
  then show ?case by simp
next
  case (Cons e previous)
  obtain rel abs where e: "e = (rel, abs)" by (cases e)
  show ?case
  proof (cases "map_has current rel")
    case True
    with Cons e show ?thesis by simp
  next
    case False
    with Cons.prems e obtain c1 where
      c1: "removeDependency n r abs c = Some c1"
      and rest: "remove_previous n r current previous c1 = Some c'"
      by (auto split: option.splits)
    from removal_frame(5) [OF removeDependency_removal(1) [OF c1]] Cons.IH [OF rest]
    show ?thesis by simp
  qed
qed

lemma entryPoints_step:
  assumes "step n options e c = Inr c'"
  shows "entryPoints (graph c') = entryPoints (graph c)"
proof (cases e)
  case (TransformDone t)
  with assms have "processModule_resume n options t c = Inr c'"
    by (simp split: if_splits)
  then obtain result :: TransformResult and current c2 where
    c2: "remove_previous n (task_module (tasks c ! t)) current (task_previous (tasks c ! t))
           (c\<lparr>heap := (heap c)(task_module (tasks c ! t) :=
                 (heap c (task_module (tasks c ! t)))
                   \<lparr>dependencies := set_all current [],
                    module_output := tr_output result\<rparr>)\<rparr>) = Some c2"
    and c': "c' = (add_current options t (task_module (tasks c ! t))
                     (task_previous (tasks c ! t)) current c2)
                  \<lparr>tasks := (tasks (add_current options t (task_module (tasks c ! t))
                     (task_previous (tasks c ! t)) current c2))
                     [t := (tasks (add_current options t (task_module (tasks c ! t))
                     (task_previous (tasks c ! t)) current c2) ! t)
                        \<lparr>task_status := AwaitChildren\<rparr>]\<rparr>"
    by (elim processModule_resumeE) (rule that; assumption)
  from entryPoints_remove_previous [OF c2] show ?thesis
    by (simp add: c' entryPoints_add_current)
next
  case (Finish t)
  with assms show ?thesis
    by (auto simp add: finish_def Let_def onDependencyAdded_def report_def split: if_splits)
qed

lemma entryPoints_run:
  "run n options es c = Inr c' \<Longrightarrow> entryPoints (graph c') = entryPoints (graph c)"
proof (induction es arbitrary: c)
  case Nil
  then show ?case by simp
next
  case (Cons e es)
  then obtain c1 where 1: "step n options e c = Inr c1" and 2: "run n options es c1 = Inr c'"
    by (auto split: sum.splits)
  from entryPoints_step [OF 1] Cons.IH [OF 2] show ?case by simp
qed

lemma cold_step_total:
  assumes inv: "cold_inv options c" and w: "within F c" and cl: "closed_files options F"
    and pi: "pass_inv options c" and fin: "finite F"
    and st: "step n options e c = Inl f"
  shows "f = NotEnabled"
proof (cases e)
  case (TransformDone t)
  show ?thesis
  proof (cases "t < length (tasks c) \<and> task_status (tasks c ! t) = AwaitTransform")
    case True
    then have t: "t < length (tasks c)" "task_status (tasks c ! t) = AwaitTransform"
      by simp_all
    from resume_returns [OF inv w cl pi fin t, of n] st TransformDone t show ?thesis by auto
  next
    case False
    with st TransformDone show ?thesis by auto
  qed
next
  case (Finish t)
  with st show ?thesis by (auto split: if_splits)
qed

lemma cold_run_total:
  assumes cl: "closed_files options F" and fin: "finite F"
  shows "cold_inv options c \<Longrightarrow> within F c \<Longrightarrow> pass_inv options c \<Longrightarrow>
    run n options es c = Inl f \<Longrightarrow> f = NotEnabled"
proof (induction es arbitrary: c)
  case Nil
  then show ?case by simp
next
  case (Cons e es)
  show ?case
  proof (cases "step n options e c")
    case (Inl g)
    with Cons.prems(4) have "g = f" by simp
    with cold_step_total [OF Cons.prems(1,2) cl Cons.prems(3) fin Inl] show ?thesis by simp
  next
    case (Inr c1)
    with Cons.prems(4) have run: "run n options es c1 = Inl f" by simp
    from Cons.IH [OF cold_step [OF Cons.prems(1,2) cl Inr] pass_inv_step [OF Cons.prems(3) Inr] run]
    show ?thesis .
  qed
qed

lemma initialTraverseDependencies_run:
  "initialTraverseDependencies n options schedule c =
     (case run n options schedule
             (start_paths options (entryPoints (graph c))
                (new_pass (create_entries (entryPoints (graph c)) c))) of
        Inl f \<Rightarrow> Inl f
      | Inr c2 \<Rightarrow>
          if roots_done c2
          then (case reorderGraph n c2 of
                  None \<Rightarrow> Inl DepthExceeded
                | Some c3 \<Rightarrow> Inr (c3, \<lparr>result_added = graph_dependencies (graph c3),
                                       result_deleted = []\<rparr>))
          else Inl Unfinished)"
  by (simp add: initialTraverseDependencies_def traverseDependencies_def Let_def
      create_entries_entryPoints split: sum.splits)

lemma cold_start_state:
  assumes empty: "graph_dependencies (graph c) = []"
    and es: "set (entryPoints (graph c)) \<subseteq> F" and cl: "closed_files options F"
    and run: "run n options schedule
                (start_paths options (entryPoints (graph c))
                   (new_pass (create_entries (entryPoints (graph c)) c))) = Inr c2"
  shows "cold_inv options c2" and "within F c2" and "pass_inv options c2"
    and "entryPoints (graph c2) = entryPoints (graph c)"
proof -
  note S = cold_start [OF empty es closed_files_nonempty [OF cl], of options]
  from cold_run [OF S(1,2) cl run] show "cold_inv options c2" and "within F c2" by simp_all
  from pass_inv_run [OF S(3) run] show "pass_inv options c2" .
  from entryPoints_run [OF run] show "entryPoints (graph c2) = entryPoints (graph c)"
    by (simp add: start_paths_fields new_pass_fields create_entries_entryPoints)
qed

lemma within_card:
  assumes "within (set fs) c"
  shows "card (fst ` set (graph_dependencies (graph c))) \<le> length fs"
proof -
  have "fst ` set (graph_dependencies (graph c)) \<subseteq> set fs"
  proof
    fix k assume "k \<in> fst ` set (graph_dependencies (graph c))"
    then have "k \<in> dom (map_of (graph_dependencies (graph c)))"
      by (simp only: dom_map_of_conv_image_fst)
    then obtain r where "graph_get c k = Some r" by auto
    from withinD(1) [OF assms this] show "k \<in> set fs" .
  qed
  then have "card (fst ` set (graph_dependencies (graph c))) \<le> card (set fs)"
    by (intro card_mono) simp_all
  also have "\<dots> \<le> length fs" by (rule card_length)
  finally show ?thesis .
qed

lemma cold_start_finished:
  assumes empty: "graph_dependencies (graph c) = []"
    and es: "set (entryPoints (graph c)) \<subseteq> set fs" and cl: "closed_files options (set fs)"
    and n: "length fs + 2 \<le> n"
    and run: "run n options schedule
                (start_paths options (entryPoints (graph c))
                   (new_pass (create_entries (entryPoints (graph c)) c))) = Inr c2"
    and fin: "roots_done c2"
  shows "\<exists>c' res. initialTraverseDependencies n options schedule c = Inr (c', res)"
proof -
  note S = cold_start_state [OF empty es cl run]
  from within_card [OF S(2)] n
  have "card (fst ` set (graph_dependencies (graph c2))) + 2 \<le> n" by simp
  from reorderGraph_returns [OF cold_inv_graph [OF S(1)] this] obtain c' where
    "reorderGraph n c2 = Some c'"
    by blast
  with run fin show ?thesis by (simp add: initialTraverseDependencies_run)
qed

lemma cold_start_returns:
  assumes empty: "graph_dependencies (graph c) = []"
    and es: "set (entryPoints (graph c)) \<subseteq> set fs" and cl: "closed_files options (set fs)"
    and n: "length fs + 2 \<le> n"
  shows "\<exists>schedule c' res. initialTraverseDependencies n options schedule c = Inr (c', res)"
    and "initialTraverseDependencies n options schedule c = Inl Unfinished \<Longrightarrow>
      \<exists>rest c' res. initialTraverseDependencies n options (schedule @ rest) c = Inr (c', res)"
    and "initialTraverseDependencies n options schedule c = Inl f \<Longrightarrow>
      f = NotEnabled \<or> f = Unfinished"
proof -
  let ?s0 = "start_paths options (entryPoints (graph c))
               (new_pass (create_entries (entryPoints (graph c)) c))"
  note S0 = cold_start [OF empty es closed_files_nonempty [OF cl], of options]
  have fs: "finite (set fs)" by simp
  have complete: "\<exists>rest c' res.
      initialTraverseDependencies n options (schedule @ rest) c = Inr (c', res)"
    if run: "run n options schedule ?s0 = Inr c1" for schedule c1
  proof -
    note S = cold_start_state [OF empty es cl run]
    from cold_completes [OF cl fs S(1,2,3), of n] obtain rest c2 where
      rest: "run n options rest c1 = Inr c2" and fin: "roots_done c2"
      by blast
    from run rest have "run n options (schedule @ rest) ?s0 = Inr c2"
      by (simp add: run_append)
    from cold_start_finished [OF empty es cl n this fin] show ?thesis by blast
  qed
  from complete [of "[]" ?s0]
  show "\<exists>schedule c' res. initialTraverseDependencies n options schedule c = Inr (c', res)"
    by auto
  show "\<exists>rest c' res. initialTraverseDependencies n options (schedule @ rest) c = Inr (c', res)"
    if "initialTraverseDependencies n options schedule c = Inl Unfinished"
  proof (cases "run n options schedule ?s0")
    case (Inl g)
    with that have "g = Unfinished" by (simp add: initialTraverseDependencies_run)
    with cold_run_total [OF cl fs S0 Inl] show ?thesis by simp
  next
    case (Inr c1)
    from complete [OF this] show ?thesis .
  qed
  show "f = NotEnabled \<or> f = Unfinished"
    if init: "initialTraverseDependencies n options schedule c = Inl f"
  proof (cases "run n options schedule ?s0")
    case (Inl g)
    with init have "g = f" by (simp add: initialTraverseDependencies_run)
    with cold_run_total [OF cl fs S0 Inl] show ?thesis by simp
  next
    case (Inr c2)
    show ?thesis
    proof (cases "roots_done c2")
      case True
      from cold_start_finished [OF empty es cl n Inr True] init show ?thesis by simp
    next
      case False
      with Inr init show ?thesis by (simp add: initialTraverseDependencies_run)
    qed
  qed
qed

lemma cold_start_traversed:
  assumes empty: "graph_dependencies (graph c) = []"
    and es: "set (entryPoints (graph c)) \<subseteq> F" and cl: "closed_files options F"
    and init: "initialTraverseDependencies n options schedule c = Inr (c', res)"
  obtains c2 where "reorderGraph n c2 = Some c'" "graph_inv c2"
    "entryPoints (graph c2) = entryPoints (graph c)"
    "\<And>k. graph_get c2 k \<noteq> None \<longleftrightarrow> k \<in> imported options (entryPoints (graph c))"
    "\<And>k r. graph_get c2 k = Some r \<Longrightarrow>
       path (heap c2 r) = k \<and> current_of options k = Some (dependencies (heap c2 r))
       \<and> set (inverseDependencies (heap c2 r)) =
           {x \<in> imported options (entryPoints (graph c)).
              \<exists>cur. current_of options x = Some cur \<and> k \<in> snd ` set cur}"
    "\<And>k r. graph_get c2 k = Some r \<Longrightarrow> r \<in> reach c2"
    "res = \<lparr>result_added = graph_dependencies (graph c'), result_deleted = []\<rparr>"
proof -
  let ?es = "entryPoints (graph c)"
  let ?s0 = "start_paths options ?es (new_pass (create_entries ?es c))"
  from init obtain c2 where run: "run n options schedule ?s0 = Inr c2"
    and fin: "roots_done c2" and ro: "reorderGraph n c2 = Some c'"
    and res: "res = \<lparr>result_added = graph_dependencies (graph c'), result_deleted = []\<rparr>"
    by (auto simp add: initialTraverseDependencies_run split: sum.splits if_splits
        option.splits)
  note I = imported_closed [OF cl es]
  have esI: "set ?es \<subseteq> imported options ?es" by (auto intro: imported.entry_file)
  note S = cold_start_state [OF empty esI I(2) run]
  note C = cold_complete [OF S(1) S(3) fin, unfolded S(4), OF S(2)]
  show ?thesis
  proof (rule that [OF ro cold_inv_graph [OF S(1)] S(4) _ _ _ res])
    show "graph_get c2 k \<noteq> None \<longleftrightarrow> k \<in> imported options ?es" for k by (rule C(1))
    show "path (heap c2 r) = k \<and> current_of options k = Some (dependencies (heap c2 r))
       \<and> set (inverseDependencies (heap c2 r)) =
           {x \<in> imported options ?es. \<exists>cur. current_of options x = Some cur \<and> k \<in> snd ` set cur}"
      if "graph_get c2 k = Some r" for k r
      using that by (rule C(2))
    show "r \<in> reach c2" if "graph_get c2 k = Some r" for k r using that by (rule C(3))
  qed
qed


section \<open>The files of the diamond\<close>

lemma diamond_current:
  "current_of (files diamond) ''/A'' = Some [(''./B'', ''/B''), (''./C'', ''/C'')]"
  "current_of (files diamond) ''/B'' = Some [(''./D'', ''/D'')]"
  "current_of (files diamond) ''/C'' = Some [(''./D'', ''/D'')]"
  "current_of (files diamond) ''/D'' = Some []"
  by (simp_all add: current_of_def files_def diamond_def resolveDependencies_def set_all_def)

lemma diamond_closed: "closed_files (files diamond) (set [''/A'', ''/B'', ''/C'', ''/D''])"
  by (simp add: closed_files_def diamond_current)

lemma diamond_imported:
  "imported (files diamond) [''/A''] = {''/A'', ''/B'', ''/C'', ''/D''}"
proof
  from imported_closed(1) [OF diamond_closed, of "[''/A'']"]
  show "imported (files diamond) [''/A''] \<subseteq> {''/A'', ''/B'', ''/C'', ''/D''}" by simp
next
  have a: "''/A'' \<in> imported (files diamond) [''/A'']" by (rule imported.entry_file) simp
  have b: "''/B'' \<in> imported (files diamond) [''/A'']"
    by (rule imported.dep_file [OF a diamond_current(1)]) simp
  have c: "''/C'' \<in> imported (files diamond) [''/A'']"
    by (rule imported.dep_file [OF a diamond_current(1)]) simp
  have d: "''/D'' \<in> imported (files diamond) [''/A'']"
    by (rule imported.dep_file [OF b diamond_current(2)]) simp
  from a b c d show "{''/A'', ''/B'', ''/C'', ''/D''} \<subseteq> imported (files diamond) [''/A'']"
    by simp
qed

lemma diamond_reorder:
  assumes get: "map_of ds ''/A'' = Some a" "map_of ds ''/B'' = Some b"
      "map_of ds ''/C'' = Some e" "map_of ds ''/D'' = Some d"
    and paths: "path (h a) = ''/A''" "path (h b) = ''/B''" "path (h e) = ''/C''"
      "path (h d) = ''/D''"
    and deps: "dependencies (h a) = [(''./B'', ''/B''), (''./C'', ''/C'')]"
      "dependencies (h b) = [(''./D'', ''/D'')]" "dependencies (h e) = [(''./D'', ''/D'')]"
      "dependencies (h d) = []"
    and run: "reorderDependencies n h (Parent [(''/A'', ''/A'')]) ds [] = Some ord"
  shows "ord = [(''/A'', a), (''/B'', b), (''/D'', d), (''/C'', e)]"
proof -
  have "n < 5 \<or> (\<exists>m. n = Suc (Suc (Suc (Suc (Suc m)))))" by presburger
  then show ?thesis
  proof
    assume "n < 5"
    then have "n = 0 \<or> n = Suc 0 \<or> n = Suc (Suc 0) \<or> n = Suc (Suc (Suc 0))
        \<or> n = Suc (Suc (Suc (Suc 0)))"
      by presburger
    with run get paths deps show ?thesis by (auto simp add: map_has_def)
  next
    assume "\<exists>m. n = Suc (Suc (Suc (Suc (Suc m))))"
    then obtain m where "n = Suc (Suc (Suc (Suc (Suc m))))" by blast
    with run get paths deps show ?thesis by (simp add: map_has_def)
  qed
qed


section \<open>Claims about the reconciled result\<close>

text \<open>
  Claim C1, as the code has it.  A path \<open>P\<close> that the delta holds in \<open>added\<close>, in
  \<open>deleted\<close> and in \<open>modified\<close> is reported as deleted, and the loop over
  \<open>delta.deleted\<close> has taken it out of the result's \<open>added\<close> mapping
  (\<open>added.delete(path)\<close> runs for every deleted path): after reconciliation \<open>P\<close> is
  in \<open>deleted\<close> only.
\<close>

theorem reconcile_replaced_deleted_only:
  assumes "map_has (added d) P" and "P \<in> set (deleted d)" and "map_has (modified d) P"
  shows "P \<in> set (result_deleted (reconcile d)) \<and> \<not> map_has (result_added (reconcile d)) P"
  using assms
  by (simp add: reconcile_sel reconcile_deleted_added reconcile_deleted_modified map_has_set_all)

theorem reconcile_replaced_deleted_only_witness:
  "map_has [(''/P'', 1::nat)] ''/P'' \<and> ''/P'' \<in> set [''/P''] \<and> map_has [(''/P'', 0::nat)] ''/P''
    \<and> ''/P'' \<in> set (result_deleted
          (reconcile \<lparr>added = [(''/P'', 1)], modified = [(''/P'', 0)], deleted = [''/P'']\<rparr>))
    \<and> \<not> map_has (result_added
          (reconcile \<lparr>added = [(''/P'', 1)], modified = [(''/P'', 0)], deleted = [''/P'']\<rparr>))
          ''/P''"
  using reconcile_replaced_deleted_only
    [of "\<lparr>added = [(''/P'', 1)], modified = [(''/P'', 0)], deleted = [''/P'']\<rparr>" "''/P''"]
  by (simp add: map_has_def)

text \<open>
  Claim C1, as the specification states it, fails: with \<open>/P\<close> in all three parts of the
  delta, the result does not list \<open>/P\<close> in \<open>added\<close>.
\<close>

theorem reconcile_dual_membership_counterexample:
  "map_has (added \<lparr>added = [(''/P'', 1)], modified = [(''/P'', 0)], deleted = [''/P'']\<rparr>) ''/P''
    \<and> ''/P'' \<in> set (deleted \<lparr>added = [(''/P'', 1)], modified = [(''/P'', 0)], deleted = [''/P'']\<rparr>)
    \<and> map_has (modified \<lparr>added = [(''/P'', 1)], modified = [(''/P'', 0)], deleted = [''/P'']\<rparr>) ''/P''
    \<and> \<not> (''/P'' \<in> set (result_deleted
              (reconcile \<lparr>added = [(''/P'', 1)], modified = [(''/P'', 0)], deleted = [''/P'']\<rparr>))
          \<and> map_has (result_added
              (reconcile \<lparr>added = [(''/P'', 1)], modified = [(''/P'', 0)], deleted = [''/P'']\<rparr>))
              ''/P'')"
  by (simp add: reconcile_def set_all_def map_has_def set_add_def)

text \<open>
  Claim C3 (rename cancellation).  A path \<open>P\<close> recorded in \<open>added\<close> and in \<open>deleted\<close> of
  the delta and not in \<open>modified\<close> is in neither \<open>added\<close> nor \<open>deleted\<close> of the result.
  \<open>delta.deleted\<close> is a \<open>Set\<close>: the list that stands for it has no repetitions.
\<close>

theorem reconcile_rename_cancels:
  assumes "distinct (deleted d)"
    and "map_has (added d) P" and "P \<in> set (deleted d)" and "\<not> map_has (modified d) P"
  shows "\<not> map_has (result_added (reconcile d)) P \<and> P \<notin> set (result_deleted (reconcile d))"
  using assms
  by (simp add: reconcile_sel reconcile_deleted_added reconcile_deleted_set map_has_set_all)

theorem reconcile_rename_cancels_witness:
  "distinct [''/old'', ''/P''] \<and> map_has [(''/P'', 3::nat)] ''/P'' \<and> ''/P'' \<in> set [''/old'', ''/P'']
    \<and> \<not> map_has [(''/A'', 0::nat)] ''/P''
    \<and> \<not> map_has (result_added
          (reconcile \<lparr>added = [(''/P'', 3)], modified = [(''/A'', 0)], deleted = [''/old'', ''/P'']\<rparr>))
          ''/P''
    \<and> ''/P'' \<notin> set (result_deleted
          (reconcile \<lparr>added = [(''/P'', 3)], modified = [(''/A'', 0)], deleted = [''/old'', ''/P'']\<rparr>))"
  using reconcile_rename_cancels
    [of "\<lparr>added = [(''/P'', 3)], modified = [(''/A'', 0)], deleted = [''/old'', ''/P'']\<rparr>" "''/P''"]
  by (simp add: map_has_def)

section \<open>Claims about single edges and changed paths\<close>

text \<open>
  Claim C8.  When the child \<open>p\<close> of a new edge has a module in the graph, \<open>addDependency\<close>
  changes one thing: the path of the parent is added to the \<open>inverseDependencies\<close> of that
  module.  The graph, the delta, the counters and the progress calls stay as they were, no
  task is created (the child is not transformed), and the module keeps its
  \<open>dependencies\<close>, \<open>path\<close> and \<open>output\<close>.
\<close>

theorem addDependency_existing:
  assumes "map_of (graph_dependencies (graph c)) p = Some existingModule"
  shows "addDependency options t parentModule p c =
           c\<lparr>heap := (heap c)(existingModule := (heap c existingModule)
                \<lparr>inverseDependencies :=
                   set_add (path (heap c parentModule))
                     (inverseDependencies (heap c existingModule))\<rparr>)\<rparr>"
  using assms by (simp add: addDependency_def inverse_add_def)

theorem addDependency_existing_witness:
  "map_of (graph_dependencies (graph diamond_config)) ''/D'' = Some 3
    \<and> addDependency (files diamond) 0 0 ''/D'' diamond_config =
        diamond_config\<lparr>heap := (heap diamond_config)
          (3 := module_of ''/D'' [] [''/B'', ''/C'', ''/A''])\<rparr>"
  using addDependency_existing [of diamond_config "''/D''" 3 "files diamond" 0 0]
  by (simp add: diamond_config_def config_of_def module_of_def set_add_def)

text \<open>
  Claim C9.  A changed path without a module in the graph is skipped, and the others are
  processed as if it had not been listed.

  A pass over \<open>paths\<close> is the pass over those of \<open>paths\<close> that have a module: the same
  failure or the same configuration and result, under every schedule.  When the callbacks
  of \<open>paths.map\<close> have run, there is one suspended call of \<open>processModule\<close> for each
  path that has a module, in the order of \<open>paths\<close>, and exactly the modules of these paths
  are in \<open>delta.modified\<close>; nothing is added or deleted yet, and graph and modules are
  as before.  If no path has a module, the pass returns at once with an empty result and
  the configuration of a fresh pass, no transform is outstanding, and so no event can
  happen.  And when a pass returns, every path that had a module is reported: as deleted
  if its module was deleted in the pass, as added otherwise.
\<close>

theorem traverseDependencies_skips_missing:
  "traverseDependencies n options schedule paths c =
     traverseDependencies n options schedule (present c paths) c
   \<and> tasks (start_paths options paths (new_pass c)) =
       map (\<lambda>(k, p). root_task c k p) (enumerate 0 (present c paths))
   \<and> modified (delta (start_paths options paths (new_pass c))) =
       fold (mark_modified c) (present c paths) []
   \<and> added (delta (start_paths options paths (new_pass c))) = []
   \<and> deleted (delta (start_paths options paths (new_pass c))) = []
   \<and> graph (start_paths options paths (new_pass c)) = graph c
   \<and> heap (start_paths options paths (new_pass c)) = heap c
   \<and> (present c paths = [] \<longrightarrow>
        traverseDependencies n options [] paths c =
          Inr (new_pass c, \<lparr>result_added = [], result_deleted = []\<rparr>)
        \<and> traverseDependencies n options (e # es) paths c = Inl NotEnabled)
   \<and> (p \<in> set (present c paths)
        \<and> traverseDependencies n options schedule paths c = Inr (c', res) \<longrightarrow>
        (if path (heap c (the (graph_get c p))) \<in> set (deleted (delta c'))
         then path (heap c (the (graph_get c p))) \<in> set (result_deleted res)
         else map_has (result_added res) (path (heap c (the (graph_get c p))))))"
proof -
  let ?s = "start_paths options paths (new_pass c)"
  have np: "graph (new_pass c) = graph c" "heap (new_pass c) = heap c"
    "tasks (new_pass c) = []" "delta (new_pass c) = \<lparr>added = [], modified = [], deleted = []\<rparr>"
    by (simp_all add: new_pass_def)
  note st = start_paths_started [of options paths "new_pass c",
      unfolded root_task_cong [OF np(1,2)] mark_modified_cong [OF np(1,2)]
        present_cong [OF np(1)] np(3,4)]
  have st2: "modified (delta ?s) = fold (mark_modified c) (present c paths) []"
    using st by simp
  have 1: "traverseDependencies n options schedule paths c =
     traverseDependencies n options schedule (present c paths) c"
    unfolding traverseDependencies_def present_def
    using start_paths_filter [of options paths "new_pass c"] by simp
  have empty: "?s = new_pass c" if "present c paths = []"
    using start_paths_filter [of options paths "new_pass c"] that
    by (simp add: present_def)
  have 2: "traverseDependencies n options [] paths c =
          Inr (new_pass c, \<lparr>result_added = [], result_deleted = []\<rparr>)
        \<and> traverseDependencies n options (e # es) paths c = Inl NotEnabled"
    if "present c paths = []"
    using empty [OF that]
    by (cases e)
       (simp_all add: traverseDependencies_def np roots_done_def reconcile_def set_all_def)
  have 3: "if path (heap c (the (graph_get c p))) \<in> set (deleted (delta c'))
         then path (heap c (the (graph_get c p))) \<in> set (result_deleted res)
         else map_has (result_added res) (path (heap c (the (graph_get c p))))"
    if p: "p \<in> set (present c paths)"
      and tr: "traverseDependencies n options schedule paths c = Inr (c', res)"
  proof -
    from tr have run: "run n options schedule ?s = Inr c'" and res: "res = reconcile (delta c')"
      by (auto simp add: traverseDependencies_def split: sum.splits if_splits)
    have "map_has (modified (delta ?s)) (path (heap c (the (graph_get c p))))"
      using p unfolding st2 mark_modified_def by (simp add: map_has_fold_update)
    with modified_run [OF run]
    have "map_has (modified (delta c')) (path (heap c (the (graph_get c p))))" by simp
    from reconcile_modified [OF this] show ?thesis by (simp add: res)
  qed
  from 1 2 3 st show ?thesis
    by (simp add: start_paths_fields np)
qed


theorem traverseDependencies_skips_missing_witness:
  "present diamond_config [''/gone'', ''/D'', ''/other''] = [''/D'']
   \<and> tasks (start_paths (files diamond) [''/gone'', ''/D'', ''/other'']
         (new_pass diamond_config)) =
       [\<lparr>task_module = 3, task_previous = [], task_root = 0, task_parent = None,
         task_status = AwaitTransform\<rparr>]
   \<and> modified (delta (start_paths (files diamond) [''/gone'', ''/D'', ''/other'']
         (new_pass diamond_config))) = [(''/D'', 3)]
   \<and> missing_pass = Inr (fst (projr missing_pass), snd (projr missing_pass))
   \<and> snd (projr missing_pass) = \<lparr>result_added = [(''/D'', 3)], result_deleted = []\<rparr>
   \<and> map_has (result_added (snd (projr missing_pass))) ''/D''
   \<and> present diamond_config [''/gone''] = []
   \<and> traverseDependencies 1 (files diamond) [] [''/gone''] diamond_config =
       Inr (new_pass diamond_config, \<lparr>result_added = [], result_deleted = []\<rparr>)
   \<and> traverseDependencies 1 (files diamond) [TransformDone 0] [''/gone''] diamond_config =
       Inl NotEnabled"
  using traverseDependencies_skips_missing
      [where n = 1 and options = "files diamond" and schedule = "[TransformDone 0, Finish 0]"
        and paths = "[''/gone'', ''/D'', ''/other'']" and c = diamond_config
        and e = "TransformDone 0" and es = "[]" and p = "''/D''"
        and c' = "fst (projr missing_pass)" and res = "snd (projr missing_pass)"]
    traverseDependencies_skips_missing
      [where n = 1 and options = "files diamond" and schedule = "[]"
        and paths = "[''/gone'']" and c = diamond_config
        and e = "TransformDone 0" and es = "[]" and p = "''/D''"
        and c' = "new_pass diamond_config"
        and res = "\<lparr>result_added = [], result_deleted = []\<rparr>"]
  by (simp add: missing_pass_def present_def root_task_def mark_modified_def pass_defs
      example_defs diamond_def reconcile_def)



section \<open>Claims about \<open>removeDependency\<close>\<close>

text \<open>
  Claim C2.  \<open>removeDependency\<close> deletes a module from the graph only after its loop over
  the dependencies of that module, and it has no test for a module whose removal has
  begun.  When the cascade comes back to such a module, it finds it in the graph without
  referrers and starts on its dependencies again, without end.

  The entry point \<open>/A\<close> and \<open>/B\<close> import each other; the cold start builds the graph
  \<open>cycle_config\<close>.  Then \<open>/A\<close> writes its import of \<open>/B\<close> with another specifier and is
  traversed.  \<open>processModule\<close> calls \<open>removeDependency\<close> for the old specifier; \<open>/B\<close> has
  no referrer left and is marked deleted, the cascade goes on to \<open>/A\<close>, whose only
  referrer was \<open>/B\<close>, and from the new dependencies of \<open>/A\<close> back to \<open>/B\<close>.  Whatever
  depth of calls is allowed, it is exceeded: \<open>/B\<close> is never removed from the graph and
  the pass fails.
\<close>

theorem removeDependency_cycle_overflows:
  "map_sum id (\<lambda>(c, res). (graph_dependencies (graph c), entryPoints (graph c),
                            heap c 0, heap c 1)) cycle_cold_start =
     Inr (graph_dependencies (graph cycle_config), entryPoints (graph cycle_config),
          heap cycle_config 0, heap cycle_config 1)
   \<and> traverseDependencies n respecified (TransformDone 0 # schedule) [''/A''] cycle_config =
       Inl DepthExceeded"
proof
  show "map_sum id (\<lambda>(c, res). (graph_dependencies (graph c), entryPoints (graph c),
                            heap c 0, heap c 1)) cycle_cold_start =
     Inr (graph_dependencies (graph cycle_config), entryPoints (graph cycle_config),
          heap cycle_config 0, heap cycle_config 1)"
    by (simp add: cycle_cold_start_def cold_defs pass_defs example_defs cycle_def
        numeral_eq_Suc reconcile_def no_output_def)
next
  let ?c0 = "start_paths respecified [''/A''] (new_pass cycle_config)"
  let ?c1 = "?c0\<lparr>heap := (heap ?c0)(0 := (heap ?c0 0)
               \<lparr>dependencies := [(''./B.js'', ''/B'')], module_output := no_output\<rparr>)\<rparr>"
  have "removeDependency n 0 ''/B'' ?c1 = None \<and> removeDependency n 1 ''/A'' ?c1 = None"
    by (rule cycle_never_returns) (simp_all add: pass_defs example_defs)
  then have "processModule_resume n respecified 0 ?c0 = Inl DepthExceeded"
    by (simp add: pass_defs example_defs respecified_def)
  then show "traverseDependencies n respecified (TransformDone 0 # schedule) [''/A'']
               cycle_config = Inl DepthExceeded"
    by (simp add: traverseDependencies_def)
       (simp add: pass_defs example_defs)
qed

theorem removeDependency_cycle_overflows_witness:
  "traverseDependencies 1000 respecified [TransformDone 0, Finish 0] [''/A''] cycle_config =
     Inl DepthExceeded"
  using removeDependency_cycle_overflows [of 1000 "[Finish 0]"] by simp

text \<open>
  Claim C4, as the code has it.  \<open>removeDependency\<close> has no test for entry points; what
  protects a module is that nothing leads to it.  In a graph whose modules are stored
  under their paths, an entry point that no module lists as a dependency and that is not
  the path of the call keeps its module through the call and its cascade, and is still
  listed by no module afterwards, so that the same holds for the next call.
\<close>

theorem removeDependency_keeps_unlisted_entry:
  assumes "paths_agree c"
    and "e \<in> set (entryPoints (graph c))" and "graph_get c e = Some r"
    and "e \<notin> targets c"
  shows "(removeDependency n parentModule a c = Some c' \<and> e \<noteq> a \<longrightarrow>
            graph_get c' e = Some r \<and> e \<in> set (entryPoints (graph c'))
            \<and> paths_agree c' \<and> e \<notin> targets c')
    \<and> (removeDependency_each n parentModule ds c = Some c' \<and> e \<notin> set ds \<longrightarrow>
            graph_get c' e = Some r \<and> e \<in> set (entryPoints (graph c'))
            \<and> paths_agree c' \<and> e \<notin> targets c')"
proof -
  have keep: "graph_get c' e = Some r \<and> e \<in> set (entryPoints (graph c'))
            \<and> paths_agree c' \<and> e \<notin> targets c'"
    if rm: "removal pp A c c'" and "e \<notin> A" for pp A
    using removal_keeps [OF rm assms(1,3) that(2) assms(4)] removal_frame(5) [OF rm]
      removal_paths_agree [OF rm assms(1)] removal_targets [OF rm] assms(2,4)
    by auto
  show ?thesis
    using keep [OF removeDependency_removal(1), of n parentModule a]
      keep [OF removeDependency_removal(2), of n parentModule ds]
    by auto
qed

theorem removeDependency_keeps_unlisted_entry_witness:
  "paths_agree diamond_dropped \<and> ''/A'' \<in> set (entryPoints (graph diamond_dropped))
   \<and> graph_get diamond_dropped ''/A'' = Some 0 \<and> ''/A'' \<notin> targets diamond_dropped
   \<and> removeDependency (Suc (Suc 0)) 0 ''/B'' diamond_dropped =
       Some (graph_delete ''/B'' (inverse_delete 3 ''/B''
               (deleted_add ''/B'' (inverse_delete 1 ''/A'' diamond_dropped))))
   \<and> graph_get (graph_delete ''/B'' (inverse_delete 3 ''/B''
               (deleted_add ''/B'' (inverse_delete 1 ''/A'' diamond_dropped)))) ''/A'' = Some 0"
  using removeDependency_keeps_unlisted_entry
    [of diamond_dropped "''/A''" 0 "Suc (Suc 0)" 0 "''/B''"
        "graph_delete ''/B'' (inverse_delete 3 ''/B''
               (deleted_add ''/B'' (inverse_delete 1 ''/A'' diamond_dropped)))"]
  by (simp add: example_defs paths_agree_def targets_def)

text \<open>
  Claim C4, as the specification states it, fails.  The entry point \<open>/A\<close> and \<open>/B\<close> import
  each other; \<open>/A\<close> drops its import and is traversed.  The cascade that removes \<open>/B\<close>
  goes on to \<open>/A\<close>, whose only referrer was \<open>/B\<close>, and the pass ends with an empty graph
  and reports both paths deleted.
\<close>

theorem entry_point_removed_counterexample:
  "entryPoints (graph cycle_config) = [''/A''] \<and> graph_get cycle_config ''/A'' = Some 0
   \<and> map_sum id (graph_dependencies \<circ> graph \<circ> fst)
        (traverseDependencies 3 (files cycle_cut) [TransformDone 0, Finish 0] [''/A'']
           cycle_config) = Inr []
   \<and> map_sum id snd
        (traverseDependencies 3 (files cycle_cut) [TransformDone 0, Finish 0] [''/A'']
           cycle_config) = Inr \<lparr>result_added = [], result_deleted = [''/B'', ''/A'']\<rparr>"
  by (simp add: pass_defs example_defs cycle_cut_def numeral_eq_Suc reconcile_def)

section \<open>Claims about the progress callbacks\<close>

text \<open>
  Claim C5, as the code has it.  \<open>numProcessed\<close> and \<open>total\<close> are local to
  \<open>traverseDependenciesForSingleFile\<close>: every changed path counts for itself.  For every
  pass that returns, under every schedule, and for each of its single-file traversals
  \<open>k\<close>: over the calls of \<open>onProgress\<close> made by \<open>k\<close>, the first argument never decreases,
  the second never decreases, the first is at most the second in every call, and in the last
  call the two are equal.
\<close>

theorem progress_monotone_per_traversal:
  assumes "traverseDependencies n options schedule paths c = Inr (c', res)"
  shows "sorted (map fst (calls_of k (progress c')))
    \<and> sorted (map snd (calls_of k (progress c')))
    \<and> (\<forall>e \<in> set (calls_of k (progress c')). fst e \<le> snd e)
    \<and> (calls_of k (progress c') = []
        \<or> fst (last (calls_of k (progress c'))) = snd (last (calls_of k (progress c'))))"
proof -
  note inv = traverseDependencies_pass_inv [OF assms]
  from inv(1) have ok: "progress_ok (tasks c') (counters c') (progress c')"
    by (simp add: pass_inv_def)
  then have k: "sorted (map fst (calls_of k (progress c')))"
    "sorted (map snd (calls_of k (progress c')))"
    "\<forall>e \<in> set (calls_of k (progress c')). fst e \<le> snd e"
    "calls_of k (progress c') = [] \<or> last (calls_of k (progress c')) = counters c' k"
    by (simp_all add: progress_ok_def)
  from k(4) pass_inv_complete [OF inv, of k]
  have "calls_of k (progress c') = []
        \<or> fst (last (calls_of k (progress c'))) = snd (last (calls_of k (progress c')))"
    by auto
  with k(1,2,3) show ?thesis by simp
qed

theorem progress_monotone_per_traversal_witness:
  "two_paths_pass = Inr (fst (projr two_paths_pass), snd (projr two_paths_pass))
   \<and> calls_of 0 (progress (fst (projr two_paths_pass))) = [(0, 1), (0, 2), (1, 2), (2, 2)]
   \<and> sorted (map fst (calls_of 0 (progress (fst (projr two_paths_pass)))))
   \<and> sorted (map snd (calls_of 0 (progress (fst (projr two_paths_pass)))))
   \<and> fst (last (calls_of 0 (progress (fst (projr two_paths_pass))))) =
       snd (last (calls_of 0 (progress (fst (projr two_paths_pass)))))"
  using progress_monotone_per_traversal
    [of 1 "files diamond_grown"
        "[TransformDone 0, TransformDone 1, Finish 1, TransformDone 2, Finish 2, Finish 0]"
        "[''/B'', ''/C'']" diamond_config "fst (projr two_paths_pass)"
        "snd (projr two_paths_pass)" 0]
  by (simp add: two_paths_pass_def pass_defs example_defs diamond_grown_def diamond_def
      calls_of_def)

text \<open>
  Claim C5, as the specification states it, fails for a pass with two changed paths.  The
  calls of the pass above are \<open>(0,1)\<close> and \<open>(0,1)\<close> when the two traversals start, \<open>(0,2)\<close>
  when \<open>/B\<close> discovers \<open>/E\<close>, \<open>(1,1)\<close> when \<open>/C\<close> is done, then \<open>(1,2)\<close> and \<open>(2,2)\<close>: the
  second argument goes from 2 back to 1.
\<close>

theorem progress_two_paths_counterexample:
  "map_sum id (map snd \<circ> progress \<circ> fst) two_paths_pass =
     Inr [(0, 1), (0, 1), (0, 2), (1, 1), (1, 2), (2, 2)]
   \<and> \<not> sorted (map snd [(0 :: nat, 1 :: nat), (0, 1), (0, 2), (1, 1), (1, 2), (2, 2)])"
  by (simp add: two_paths_pass_def pass_defs example_defs diamond_grown_def diamond_def)

section \<open>Claims about the cold start\<close>






text \<open>
  Claim C6.  Whenever the cold start of the diamond returns, under whatever order of
  events and so whichever of the transforms of \<open>/B\<close> and \<open>/C\<close> resolves first, the graph
  lists the four modules in the order \<open>/A\<close>, \<open>/B\<close>, \<open>/D\<close>, \<open>/C\<close> and no other, the result
  has them as \<open>added\<close>, and the referrers of \<open>/D\<close> are \<open>/B\<close> and \<open>/C\<close>.  With a depth bound
  of 6 or more it does return under some order, and can be completed from wherever the
  events so far have left it.
\<close>

theorem diamond_linearization:
  "(initialTraverseDependencies n (files diamond) schedule (empty_config [''/A''])
       = Inr (c', res) \<longrightarrow>
      result_added res = graph_dependencies (graph c')
      \<and> map fst (graph_dependencies (graph c')) = [''/A'', ''/B'', ''/D'', ''/C'']
      \<and> (\<exists>a b d e. graph_dependencies (graph c') =
                       [(''/A'', a), (''/B'', b), (''/D'', d), (''/C'', e)]
            \<and> set (inverseDependencies (heap c' d)) = {''/B'', ''/C''}))
   \<and> (6 \<le> n \<longrightarrow>
        (\<exists>schedule c' res.
            initialTraverseDependencies n (files diamond) schedule (empty_config [''/A''])
              = Inr (c', res))
        \<and> (initialTraverseDependencies n (files diamond) schedule (empty_config [''/A''])
              = Inl Unfinished \<longrightarrow>
            (\<exists>rest c' res.
                initialTraverseDependencies n (files diamond) (schedule @ rest)
                  (empty_config [''/A'']) = Inr (c', res))))"
proof (intro conjI impI)
  let ?c = "empty_config [''/A'']"
  have empty: "graph_dependencies (graph ?c) = []"
    and es: "entryPoints (graph ?c) = [''/A'']"
    by (simp_all add: example_defs)
  have sub: "set (entryPoints (graph ?c)) \<subseteq> set [''/A'', ''/B'', ''/C'', ''/D'']"
    by (simp add: es)
  {
    assume n: "6 \<le> n"
    then have n': "length [''/A'', ''/B'', ''/C'', ''/D''] + 2 \<le> n" by simp
    note R = cold_start_returns [OF empty sub diamond_closed n']
    from R(1) show "\<exists>schedule c' res.
        initialTraverseDependencies n (files diamond) schedule ?c = Inr (c', res)" .
    show "\<exists>rest c' res.
        initialTraverseDependencies n (files diamond) (schedule @ rest) ?c = Inr (c', res)"
      if "initialTraverseDependencies n (files diamond) schedule ?c = Inl Unfinished"
      using that by (rule R(2))
  }
  assume init: "initialTraverseDependencies n (files diamond) schedule ?c = Inr (c', res)"
  from cold_start_traversed [OF empty sub diamond_closed init] obtain c2 where
    ro: "reorderGraph n c2 = Some c'"
    and es2: "entryPoints (graph c2) = entryPoints (graph ?c)"
    and keys: "\<And>k. graph_get c2 k \<noteq> None \<longleftrightarrow> k \<in> imported (files diamond) (entryPoints (graph ?c))"
    and mods: "\<And>k r. graph_get c2 k = Some r \<Longrightarrow>
       path (heap c2 r) = k \<and> current_of (files diamond) k = Some (dependencies (heap c2 r))
       \<and> set (inverseDependencies (heap c2 r)) =
           {x \<in> imported (files diamond) (entryPoints (graph ?c)).
              \<exists>cur. current_of (files diamond) x = Some cur \<and> k \<in> snd ` set cur}"
    and res: "res = \<lparr>result_added = graph_dependencies (graph c'), result_deleted = []\<rparr>"
    by blast
  from res show "result_added res = graph_dependencies (graph c')" by simp
  note keys' = keys [unfolded es diamond_imported]
  from keys' [of "''/A''"] keys' [of "''/B''"] keys' [of "''/C''"] keys' [of "''/D''"]
  obtain a b e d where get: "graph_get c2 ''/A'' = Some a" "graph_get c2 ''/B'' = Some b"
    "graph_get c2 ''/C'' = Some e" "graph_get c2 ''/D'' = Some d"
    by auto
  note A = mods [OF get(1), unfolded diamond_current es diamond_imported]
    and B = mods [OF get(2), unfolded diamond_current es diamond_imported]
    and C = mods [OF get(3), unfolded diamond_current es diamond_imported]
    and D = mods [OF get(4), unfolded diamond_current es diamond_imported]
  from ro obtain ord where
    ord: "reorderDependencies n (heap c2)
            (Parent (set_all (map (\<lambda>e. (e, e)) (entryPoints (graph c2))) []))
            (graph_dependencies (graph c2)) [] = Some ord"
    and c': "c' = c2\<lparr>graph := (graph c2)\<lparr>graph_dependencies := ord\<rparr>\<rparr>"
    by (auto simp add: reorderGraph_def split: option.splits)
  from ord have ord': "reorderDependencies n (heap c2) (Parent [(''/A'', ''/A'')])
            (graph_dependencies (graph c2)) [] = Some ord"
    by (simp add: es2 es set_all_def)
  have "ord = [(''/A'', a), (''/B'', b), (''/D'', d), (''/C'', e)]"
    by (rule diamond_reorder [OF get _ _ _ _ _ _ _ _ ord']) (use A B C D in simp_all)
  then have gd: "graph_dependencies (graph c') = [(''/A'', a), (''/B'', b), (''/D'', d), (''/C'', e)]"
    by (simp add: c')
  then show "map fst (graph_dependencies (graph c')) = [''/A'', ''/B'', ''/D'', ''/C'']"
    by simp
  from D have "set (inverseDependencies (heap c2 d)) =
      {x \<in> {''/A'', ''/B'', ''/C'', ''/D''}.
         \<exists>cur. current_of (files diamond) x = Some cur \<and> ''/D'' \<in> snd ` set cur}"
    by simp
  also have "\<dots> = {''/B'', ''/C''}"
    by (auto simp add: diamond_current)
  finally have "set (inverseDependencies (heap c' d)) = {''/B'', ''/C''}" by (simp add: c')
  with gd show "\<exists>a b d e. graph_dependencies (graph c') =
                       [(''/A'', a), (''/B'', b), (''/D'', d), (''/C'', e)]
            \<and> set (inverseDependencies (heap c' d)) = {''/B'', ''/C''}"
    by blast
qed


theorem diamond_linearization_witness:
  "diamond_cold_start = Inr (fst (projr diamond_cold_start), snd (projr diamond_cold_start))
   \<and> diamond_cold_start_C_first = Inr (fst (projr diamond_cold_start_C_first), snd (projr diamond_cold_start_C_first))
   \<and> map fst (result_added (snd (projr diamond_cold_start))) = [''/A'', ''/B'', ''/D'', ''/C'']
   \<and> map fst (result_added (snd (projr diamond_cold_start_C_first))) = [''/A'', ''/B'', ''/D'', ''/C'']
   \<and> inverseDependencies (heap (fst (projr diamond_cold_start)) 3) = [''/B'', ''/C'']
   \<and> inverseDependencies (heap (fst (projr diamond_cold_start_C_first)) 3) = [''/C'', ''/B'']
   \<and> map fst (graph_dependencies (graph (fst (projr diamond_cold_start_C_first)))) = [''/A'', ''/B'', ''/D'', ''/C'']"
proof -
  have 1: "diamond_cold_start = Inr (fst (projr diamond_cold_start), snd (projr diamond_cold_start))"
    and 2: "inverseDependencies (heap (fst (projr diamond_cold_start)) 3) = [''/B'', ''/C'']"
    and 3: "map fst (result_added (snd (projr diamond_cold_start))) = [''/A'', ''/B'', ''/D'', ''/C'']"
    by (simp_all add: diamond_cold_start_def cold_defs pass_defs example_defs diamond_def numeral_eq_Suc)
  have 4: "diamond_cold_start_C_first = Inr (fst (projr diamond_cold_start_C_first), snd (projr diamond_cold_start_C_first))"
    and 5: "inverseDependencies (heap (fst (projr diamond_cold_start_C_first)) 3) = [''/C'', ''/B'']"
    and 6: "map fst (result_added (snd (projr diamond_cold_start_C_first))) = [''/A'', ''/B'', ''/D'', ''/C'']"
    by (simp_all add: diamond_cold_start_C_first_def cold_defs pass_defs example_defs diamond_def numeral_eq_Suc)
  from diamond_linearization
    [of 6 "[TransformDone 0, TransformDone 2, TransformDone 1, TransformDone 3,
        Finish 3, Finish 2, Finish 1, Finish 0]" "fst (projr diamond_cold_start_C_first)" "snd (projr diamond_cold_start_C_first)",
     folded diamond_cold_start_C_first_def] 4
  have 7: "map fst (graph_dependencies (graph (fst (projr diamond_cold_start_C_first)))) =
      [''/A'', ''/B'', ''/D'', ''/C'']"
    by blast
  from 1 2 3 4 5 6 7 show ?thesis by blast
qed
end
